theory Spec2Isabelle
  imports Complex_Main
begin

section \<open>JavaScript numbers\<close>

text \<open>
  The class computes with JavaScript numbers, which are IEEE 754 binary64 values. A number
  is modelled by its exact rational value, together with the two zeros, the two
  infinities and NaN: \<open>Fin r\<close> stands for the number with the value \<open>r\<close>, and \<open>Fin 0\<close> for
  the positive zero. Every arithmetic operation computes the exact result and rounds it
  to the nearest binary64 value (ties to even), as the language prescribes. A number
  literal of the source is the rounding of its decimal value: \<open>1.005\<close> is
  \<open>round64 (201 / 200)\<close>.
\<close>

datatype jsnum = Fin rat | NegZero | PosInf | NegInf | NaN

definition pow2 :: "int \<Rightarrow> rat" where
  \<comment> \<open>\<open>2 ^ e\<close> for an integer exponent\<close>
  "pow2 e = (if 0 \<le> e then 2 ^ nat e else 1 / 2 ^ nat (- e))"

fun bits :: "nat \<Rightarrow> nat" where
  \<comment> \<open>the number of binary digits\<close>
  "bits n = (if n = 0 then 0 else Suc (bits (n div 2)))"

declare bits.simps [simp del]

definition ilog2 :: "rat \<Rightarrow> int" where
  \<comment> \<open>the exponent \<open>e\<close> with \<open>2 ^ e \<le> x < 2 ^ (e + 1)\<close>, for positive \<open>x\<close>\<close>
  "ilog2 x = (if 1 \<le> x then int (bits (nat \<lfloor>x\<rfloor>)) - 1
              else let l = int (bits (nat \<lfloor>1 / x\<rfloor>)) - 1
                   in if x * 2 ^ nat l = 1 then - l else - l - 1)"

definition round_even :: "rat \<Rightarrow> int" where
  \<comment> \<open>the nearest integer, the even one at a tie\<close>
  "round_even y = (let f = \<lfloor>y\<rfloor>; d = y - of_int f
                   in if d < 1 / 2 then f else if 1 / 2 < d then f + 1
                      else if even f then f else f + 1)"

definition round64 :: "rat \<Rightarrow> jsnum" where
  \<comment> \<open>the binary64 value nearest to a rational: 53 significant bits, least exponent
      \<open>-1074\<close>, overflow to an infinity\<close>
  "round64 r = (if r = 0 then Fin 0
     else let q = max (ilog2 \<bar>r\<bar> - 52) (- 1074);
              m = round_even (\<bar>r\<bar> / pow2 q);
              v = of_int m * pow2 q
          in if 1024 \<le> ilog2 \<bar>r\<bar> \<or> (ilog2 \<bar>r\<bar> = 1023 \<and> m = 2 ^ 53)
             then (if r < 0 then NegInf else PosInf)
             else if v = 0 then (if r < 0 then NegZero else Fin 0)
             else Fin (if r < 0 then - v else v))"

definition is_nan :: "jsnum \<Rightarrow> bool" where
  "is_nan x = (case x of NaN \<Rightarrow> True | _ \<Rightarrow> False)"

definition is_inf :: "jsnum \<Rightarrow> bool" where
  "is_inf x = (case x of PosInf \<Rightarrow> True | NegInf \<Rightarrow> True | _ \<Rightarrow> False)"

definition is_zero :: "jsnum \<Rightarrow> bool" where
  "is_zero x = (case x of Fin r \<Rightarrow> r = 0 | NegZero \<Rightarrow> True | _ \<Rightarrow> False)"

definition sign_neg :: "jsnum \<Rightarrow> bool" where
  "sign_neg x = (case x of Fin r \<Rightarrow> r < 0 | NegZero \<Rightarrow> True | NegInf \<Rightarrow> True | _ \<Rightarrow> False)"

definition rat_of :: "jsnum \<Rightarrow> rat" where
  "rat_of x = (case x of Fin r \<Rightarrow> r | _ \<Rightarrow> 0)"

definition signed_zero :: "bool \<Rightarrow> jsnum" where
  "signed_zero neg = (if neg then NegZero else Fin 0)"

definition signed_inf :: "bool \<Rightarrow> jsnum" where
  "signed_inf neg = (if neg then NegInf else PosInf)"

definition truthy :: "jsnum \<Rightarrow> bool" where
  \<comment> \<open>a number in a condition: both zeros and NaN are falsy\<close>
  "truthy x = (\<not> is_zero x \<and> \<not> is_nan x)"

definition truthy_opt :: "jsnum option \<Rightarrow> bool" where
  \<comment> \<open>a field of type \<open>number | undefined\<close> in a condition\<close>
  "truthy_opt x = (case x of None \<Rightarrow> False | Some n \<Rightarrow> truthy n)"

definition js_neg :: "jsnum \<Rightarrow> jsnum" where
  "js_neg x = (case x of Fin r \<Rightarrow> (if r = 0 then NegZero else Fin (- r))
     | NegZero \<Rightarrow> Fin 0 | PosInf \<Rightarrow> NegInf | NegInf \<Rightarrow> PosInf | NaN \<Rightarrow> NaN)"

definition js_mul :: "jsnum \<Rightarrow> jsnum \<Rightarrow> jsnum" where
  "js_mul a b =
     (if is_nan a \<or> is_nan b then NaN
      else if is_inf a \<or> is_inf b
        then (if is_zero a \<or> is_zero b then NaN else signed_inf (sign_neg a \<noteq> sign_neg b))
      else if is_zero a \<or> is_zero b then signed_zero (sign_neg a \<noteq> sign_neg b)
      else round64 (rat_of a * rat_of b))"

definition js_div :: "jsnum \<Rightarrow> jsnum \<Rightarrow> jsnum" where
  "js_div a b =
     (if is_nan a \<or> is_nan b then NaN
      else if is_inf a then (if is_inf b then NaN else signed_inf (sign_neg a \<noteq> sign_neg b))
      else if is_inf b then signed_zero (sign_neg a \<noteq> sign_neg b)
      else if is_zero b
        then (if is_zero a then NaN else signed_inf (sign_neg a \<noteq> sign_neg b))
      else if is_zero a then signed_zero (sign_neg a \<noteq> sign_neg b)
      else round64 (rat_of a / rat_of b))"

definition js_add :: "jsnum \<Rightarrow> jsnum \<Rightarrow> jsnum" where
  "js_add a b =
     (if is_nan a \<or> is_nan b then NaN
      else if is_inf a then (if is_inf b \<and> a \<noteq> b then NaN else a)
      else if is_inf b then b
      else if is_zero a \<and> is_zero b then signed_zero (sign_neg a \<and> sign_neg b)
      else round64 (rat_of a + rat_of b))"

definition js_sub :: "jsnum \<Rightarrow> jsnum \<Rightarrow> jsnum" where
  "js_sub a b = js_add a (js_neg b)"

definition js_rem :: "jsnum \<Rightarrow> jsnum \<Rightarrow> jsnum" where
  \<comment> \<open>the operator \<open>%\<close>: the remainder of the truncating division, with the sign of the
      dividend\<close>
  "js_rem a b =
     (if is_nan a \<or> is_nan b \<or> is_inf a \<or> is_zero b then NaN
      else if is_inf b \<or> is_zero a then a
      else let x = rat_of a; y = \<bar>rat_of b\<bar>;
               r = \<bar>x\<bar> - y * of_int \<lfloor>\<bar>x\<bar> / y\<rfloor>
           in if r = 0 then signed_zero (x < 0) else Fin (if x < 0 then - r else r))"

definition js_ge :: "jsnum \<Rightarrow> jsnum \<Rightarrow> bool" where
  "js_ge a b = (if is_nan a \<or> is_nan b then False
     else case a of PosInf \<Rightarrow> True
       | NegInf \<Rightarrow> (case b of NegInf \<Rightarrow> True | _ \<Rightarrow> False)
       | _ \<Rightarrow> (case b of PosInf \<Rightarrow> False | NegInf \<Rightarrow> True | _ \<Rightarrow> rat_of b \<le> rat_of a))"

definition js_gt :: "jsnum \<Rightarrow> jsnum \<Rightarrow> bool" where
  "js_gt a b = (if is_nan a \<or> is_nan b then False
     else case a of PosInf \<Rightarrow> (case b of PosInf \<Rightarrow> False | _ \<Rightarrow> True)
       | NegInf \<Rightarrow> False
       | _ \<Rightarrow> (case b of PosInf \<Rightarrow> False | NegInf \<Rightarrow> True | _ \<Rightarrow> rat_of b < rat_of a))"

definition math_round :: "jsnum \<Rightarrow> jsnum" where
  \<comment> \<open>\<open>Math.round\<close>: the nearest integer, a tie going to the larger one\<close>
  "math_round x = (case x of
       Fin r \<Rightarrow> (let n = \<lfloor>r + 1 / 2\<rfloor> in if n = 0 \<and> r < 0 then NegZero else Fin (of_int n))
     | _ \<Rightarrow> x)"

definition math_floor :: "jsnum \<Rightarrow> jsnum" where
  "math_floor x = (case x of Fin r \<Rightarrow> Fin (of_int \<lfloor>r\<rfloor>) | _ \<Rightarrow> x)"

definition math_ceil :: "jsnum \<Rightarrow> jsnum" where
  "math_ceil x = (case x of
       Fin r \<Rightarrow> (let n = \<lceil>r\<rceil> in if n = 0 \<and> r < 0 then NegZero else Fin (of_int n))
     | _ \<Rightarrow> x)"

definition math_abs :: "jsnum \<Rightarrow> jsnum" where
  "math_abs x = (case x of Fin r \<Rightarrow> Fin \<bar>r\<bar> | NegZero \<Rightarrow> Fin 0 | NegInf \<Rightarrow> PosInf | _ \<Rightarrow> x)"

definition to_int32 :: "jsnum \<Rightarrow> jsnum" where
  \<comment> \<open>\<open>~~x\<close>: truncate toward zero and wrap into the signed 32-bit range\<close>
  "to_int32 x = (case x of
       Fin r \<Rightarrow> (let t = (if r < 0 then - \<lfloor>- r\<rfloor> else \<lfloor>r\<rfloor>)
                 in Fin (of_int ((t + 2 ^ 31) mod 2 ^ 32 - 2 ^ 31)))
     | _ \<Rightarrow> Fin 0)"


section \<open>Strings\<close>

text \<open>
  Strings are lists of characters. \<open>Number.prototype.toFixed\<close> and the conversion
  \<open>Number(string)\<close> are the two library functions between numbers and strings that the
  class calls.
\<close>

definition is_digit :: "char \<Rightarrow> bool" where
  "is_digit c = (c \<in> set ''0123456789'')"

definition is_word :: "char \<Rightarrow> bool" where
  \<comment> \<open>the class \<open>\w\<close> of a regular expression\<close>
  "is_word c = (c \<in> set ''0123456789abcdefghijklmnopqrstuvwxyzABCDEFGHIJKLMNOPQRSTUVWXYZ_'')"

definition digit_char :: "nat \<Rightarrow> char" where
  "digit_char d = ''0123456789'' ! (d mod 10)"

definition digit_val :: "char \<Rightarrow> nat" where
  "digit_val c = length (takeWhile (\<lambda>d. d \<noteq> c) ''0123456789'')"

fun digits_of :: "nat \<Rightarrow> string" where
  "digits_of n = (if n < 10 then [digit_char n] else digits_of (n div 10) @ [digit_char (n mod 10)])"

declare digits_of.simps [simp del]

definition nat_of_digits :: "string \<Rightarrow> nat" where
  "nat_of_digits s = foldl (\<lambda>a c. 10 * a + digit_val c) 0 s"

definition fixed_digits :: "nat \<Rightarrow> nat \<Rightarrow> string" where
  \<comment> \<open>the digits of \<open>n\<close> with a decimal point before the last \<open>fd\<close> of them, padded with
      zeros on the left to at least one digit before the point\<close>
  "fixed_digits fd n =
     (if fd = 0 then digits_of n
      else let m = digits_of n;
               z = replicate (fd + 1 - length m) CHR ''0'' @ m
           in take (length z - fd) z @ [CHR ''.''] @ drop (length z - fd) z)"

definition strip_zeros :: "string \<Rightarrow> string" where
  "strip_zeros s = rev (dropWhile (\<lambda>c. c = CHR ''0'') (rev s))"

definition sci_candidates :: "rat \<Rightarrow> nat \<Rightarrow> nat \<Rightarrow> nat list" where
  \<comment> \<open>the integers \<open>s\<close> next to \<open>a / 10 ^ (n - k)\<close> for which \<open>s * 10 ^ (n - k)\<close> reads back
      as \<open>a\<close>, the nearer one first\<close>
  "sci_candidates a n k =
     (let u = 10 ^ (n - k); lo = nat \<lfloor>a / u\<rfloor>;
          ord = (if a - of_nat lo * u \<le> of_nat (lo + 1) * u - a then [lo, lo + 1] else [lo + 1, lo])
      in filter (\<lambda>s. round64 (of_nat s * u) = Fin a) ord)"

definition sci_string :: "rat \<Rightarrow> string" where
  \<comment> \<open>\<open>Number::toString\<close> for a magnitude of at least \<open>10 ^ 21\<close>: the shortest digit string
      that reads back as the same number, in exponent notation\<close>
  "sci_string a =
     (let n = length (digits_of (nat \<lfloor>a\<rfloor>));
          ks = filter (\<lambda>k. sci_candidates a n k \<noteq> []) [1 ..< 18]
      in case ks of [] \<Rightarrow> []
         | k # _ \<Rightarrow>
           (let ds = digits_of (hd (sci_candidates a n k));
                e = n - 1 + (length ds - k);
                ms = strip_zeros ds
            in (case ms of [] \<Rightarrow> [] | d # rest \<Rightarrow> d # (if rest = [] then [] else CHR ''.'' # rest))
               @ ''e+'' @ digits_of e))"

datatype error = InvalidInput | RangeError | SyntaxError

definition to_fixed :: "nat \<Rightarrow> jsnum \<Rightarrow> error + string" where
  \<comment> \<open>\<open>x.toFixed(fd)\<close>: a range error unless \<open>fd \<le> 100\<close>; the nearest multiple of
      \<open>10 ^ - fd\<close>, the larger one at a tie of the magnitude; at \<open>10 ^ 21\<close> and above the
      ordinary conversion to a string\<close>
  "to_fixed fd x =
     (if 100 < fd then Inl RangeError
      else Inr (case x of
          NaN \<Rightarrow> ''NaN''
        | PosInf \<Rightarrow> ''Infinity''
        | NegInf \<Rightarrow> ''-Infinity''
        | NegZero \<Rightarrow> fixed_digits fd 0
        | Fin r \<Rightarrow>
            (if 10 ^ 21 \<le> \<bar>r\<bar> then (if r < 0 then ''-'' else []) @ sci_string \<bar>r\<bar>
             else (if r < 0 then ''-'' else [])
                  @ fixed_digits fd (nat \<lfloor>\<bar>r\<bar> * 10 ^ fd + 1 / 2\<rfloor>))))"

definition is_space :: "char \<Rightarrow> bool" where
  \<comment> \<open>the white space and the line terminators among the 8-bit characters\<close>
  "is_space c = (c \<in> set [CHR '' '', CHR 0x09, CHR 0x0A, CHR 0x0B, CHR 0x0C, CHR 0x0D, CHR 0xA0])"

definition trim :: "string \<Rightarrow> string" where
  "trim s = rev (dropWhile is_space (rev (dropWhile is_space s)))"

definition exponent_part :: "string \<Rightarrow> int option" where
  \<comment> \<open>what follows the digits of a decimal literal: nothing, or \<open>e\<close>, a sign and digits\<close>
  "exponent_part s =
     (case s of [] \<Rightarrow> Some 0
      | c # t \<Rightarrow>
         (if c = CHR ''e'' \<or> c = CHR ''E''
          then (case t of [] \<Rightarrow> None
             | d # u \<Rightarrow>
                (let neg = (d = CHR ''-'');
                     ds = (if d = CHR ''-'' \<or> d = CHR ''+'' then u else t)
                 in if ds \<noteq> [] \<and> list_all is_digit ds
                    then Some (if neg then - int (nat_of_digits ds) else int (nat_of_digits ds))
                    else None))
          else None))"

definition unsigned_decimal :: "string \<Rightarrow> rat option" where
  \<comment> \<open>the value of an unsigned decimal literal: digits, an optional point and digits, an
      optional exponent, with a digit on one side of the point at least\<close>
  "unsigned_decimal s =
     (let ip = takeWhile is_digit s; r1 = dropWhile is_digit s;
          has_dot = (case r1 of [] \<Rightarrow> False | c # _ \<Rightarrow> c = CHR ''.'');
          fp = (if has_dot then takeWhile is_digit (tl r1) else []);
          r2 = (if has_dot then dropWhile is_digit (tl r1) else r1)
      in if ip = [] \<and> fp = [] then None
         else (case exponent_part r2 of None \<Rightarrow> None
            | Some e \<Rightarrow>
               Some (of_nat (nat_of_digits (ip @ fp)) / 10 ^ length fp
                     * (if 0 \<le> e then 10 ^ nat e else 1 / 10 ^ nat (- e)))))"

definition radix_literal :: "string \<Rightarrow> nat option" where
  \<comment> \<open>the literals \<open>0x\<close>, \<open>0o\<close> and \<open>0b\<close>\<close>
  "radix_literal s =
     (case s of
        z # x # ds \<Rightarrow>
          (let hex = ''0123456789abcdef'';
               low = (\<lambda>c. if c \<in> set ''ABCDEF'' then char_of (of_char c + (32::nat)) else c);
               b = (if x = CHR ''x'' \<or> x = CHR ''X'' then 16
                    else if x = CHR ''o'' \<or> x = CHR ''O'' then 8
                    else if x = CHR ''b'' \<or> x = CHR ''B'' then 2 else (0::nat));
               val = (\<lambda>c. length (takeWhile (\<lambda>d. d \<noteq> low c) hex))
           in if z = CHR ''0'' \<and> 0 < b \<and> ds \<noteq> [] \<and> list_all (\<lambda>c. val c < b) ds
              then Some (foldl (\<lambda>a c. b * a + val c) 0 ds) else None)
      | _ \<Rightarrow> None)"

definition to_number :: "string \<Rightarrow> jsnum" where
  \<comment> \<open>\<open>Number(s)\<close>: the empty string is zero, a literal is rounded to the nearest number,
      anything else is NaN\<close>
  "to_number s0 =
     (let s = trim s0
      in if s = [] then Fin 0
         else (case radix_literal s of Some n \<Rightarrow> round64 (of_nat n)
            | None \<Rightarrow>
               (let neg = (hd s = CHR ''-'');
                    u = (if hd s = CHR ''-'' \<or> hd s = CHR ''+'' then tl s else s)
                in if u = ''Infinity'' then signed_inf neg
                   else (case unsigned_decimal u of None \<Rightarrow> NaN
                      | Some r \<Rightarrow> if r = 0 then signed_zero neg
                                  else round64 (if neg then - r else r)))))"

section \<open>The class Currency\<close>

text \<open>
  The model follows \<open>source.ts\<close> method by method. A method that throws returns \<open>Inl\<close> of
  the error, and a method that returns \<open>undefined\<close> returns \<open>None\<close>. Strings are lists of
  8-bit characters. \<open>Math.pow(10, p)\<close> is taken as the number nearest to \<open>10 ^ p\<close>, which is
  \<open>10 ^ p\<close> itself up to \<open>p = 22\<close>.
\<close>

subsection \<open>Replacement strings\<close>

text \<open>
  \<open>String.prototype.replace\<close> expands the \<open>$\<close> patterns of its replacement string:
  \<open>$$\<close> is a dollar sign, \<open>$&\<close> the match, \<open>$`\<close> and \<open>$'\<close> the text before and after the match,
  \<open>$n\<close> and \<open>$nn\<close> the captures. A two-digit reference beyond the number of captures is
  read as a one-digit reference followed by a digit, and a reference to no capture stays
  as it is written.
\<close>

definition group_ref :: "string list \<Rightarrow> char \<Rightarrow> string" where
  \<comment> \<open>\<open>$d\<close> for one digit \<open>d\<close>\<close>
  "group_ref caps d =
     (if 1 \<le> digit_val d \<and> digit_val d \<le> length caps then caps ! (digit_val d - 1)
      else [CHR ''$'', d])"

fun substitution :: "string \<Rightarrow> string \<Rightarrow> string \<Rightarrow> string list \<Rightarrow> string \<Rightarrow> string" where
  \<comment> \<open>\<open>GetSubstitution\<close>: the match, the text before it, the text after it, the captures,
      the replacement string\<close>
  "substitution m b a caps [] = []"
| "substitution m b a caps [c] = [c]"
| "substitution m b a caps (c # d # r) =
     (if c \<noteq> CHR ''$'' then c # substitution m b a caps (d # r)
      else if d = CHR ''$'' then CHR ''$'' # substitution m b a caps r
      else if d = CHR ''&'' then m @ substitution m b a caps r
      else if d = CHR 0x60 then b @ substitution m b a caps r
      else if d = CHR 0x27 then a @ substitution m b a caps r
      else if is_digit d then
        (case r of
           [] \<Rightarrow> group_ref caps d
         | e # r' \<Rightarrow>
             if is_digit e \<and> 10 * digit_val d + digit_val e \<le> length caps
             then (if 10 * digit_val d + digit_val e = 0 then [c, d, e]
                   else caps ! (10 * digit_val d + digit_val e - 1))
                  @ substitution m b a caps r'
             else group_ref caps d @ substitution m b a caps r)
      else c # substitution m b a caps (d # r))"

subsection \<open>Regular expressions\<close>

text \<open>
  \<open>parse\<close> builds two regular expressions from the decimal separator of the settings, with
  \<open>new RegExp(pattern, 'g')\<close>. A regular expression is modelled by what \<open>replace\<close> does with
  it: the function that takes the string and the replacement string to the result. The
  constructor is an argument \<open>rx\<close> of \<open>parse\<close> and of the methods that call it, from patterns
  to regular expressions, \<open>None\<close> when the constructor throws a \<open>SyntaxError\<close>; so a
  statement about every \<open>rx\<close> holds whatever the separator is.
\<close>

type_synonym regexp = "string \<Rightarrow> string \<Rightarrow> string"

definition regex_source :: "string \<Rightarrow> string" where
  \<comment> \<open>\<open>'[^-\\d' + decimal + ']'\<close>\<close>
  "regex_source dec = ''[^-'' @ [CHR 0x5C] @ ''d'' @ dec @ '']''"

definition decimalString_source :: "string \<Rightarrow> string" where
  \<comment> \<open>\<open>'\\' + decimal\<close>\<close>
  "decimalString_source dec = CHR 0x5C # dec"

text \<open>
  The constructor on the patterns of a decimal separator of at most one character is
  \<open>RegExp\<close> below; the statements about one given input are evaluated with it.
  \<^item> In \<open>[^-\dc]\<close> the character \<open>c\<close> stands for itself, except that a backslash takes the
    closing bracket with it, which leaves the class open, and that a closing bracket ends
    the class, so that \<open>[^-\d]]\<close> matches a character of the class followed by a bracket.
  \<^item> \<open>\c\<close> is a class for \<open>d D w W s S\<close>, an assertion for \<open>b B\<close>, a control character for
    \<open>t n v f r 0\<close>, the character with that code for \<open>1\<close> to \<open>7\<close>, a backslash followed by
    \<open>c\<close> for \<open>c\<close> itself, and the character \<open>c\<close> otherwise. A backslash alone is an error.
  The patterns of a longer separator are outside this table (the last line).
\<close>

fun class_sub :: "(char \<Rightarrow> bool) \<Rightarrow> string \<Rightarrow> string \<Rightarrow> string \<Rightarrow> string" where
  \<comment> \<open>every character that satisfies \<open>P\<close> replaced; \<open>pre\<close> is the text already passed\<close>
  "class_sub P pre [] r = []"
| "class_sub P pre (c # cs) r =
     (if P c then substitution [c] pre cs [] r else [c]) @ class_sub P (pre @ [c]) cs r"

fun pair_sub :: "(char \<Rightarrow> bool) \<Rightarrow> (char \<Rightarrow> bool) \<Rightarrow> string \<Rightarrow> string \<Rightarrow> string \<Rightarrow> string" where
  \<comment> \<open>every character that satisfies \<open>P\<close> followed by one that satisfies \<open>Q\<close> replaced,
      from left to right\<close>
  "pair_sub P Q pre (c # d # cs) r =
     (if P c \<and> Q d then substitution [c, d] pre cs [] r @ pair_sub P Q (pre @ [c, d]) cs r
      else c # pair_sub P Q (pre @ [c]) (d # cs) r)"
| "pair_sub P Q pre [c] r = [c]"
| "pair_sub P Q pre [] r = []"

definition word_boundary :: "string \<Rightarrow> string \<Rightarrow> bool" where
  \<comment> \<open>\<open>\b\<close> between the text \<open>pre\<close> and the text \<open>s\<close>\<close>
  "word_boundary pre s = ((pre \<noteq> [] \<and> is_word (last pre)) \<noteq> (s \<noteq> [] \<and> is_word (hd s)))"

fun assert_sub :: "(string \<Rightarrow> string \<Rightarrow> bool) \<Rightarrow> string \<Rightarrow> string \<Rightarrow> string \<Rightarrow> string" where
  \<comment> \<open>the replacement inserted at every position where the assertion holds\<close>
  "assert_sub A pre [] r = (if A pre [] then substitution [] pre [] [] r else [])"
| "assert_sub A pre (c # cs) r =
     (if A pre (c # cs) then substitution [] pre (c # cs) [] r else [])
     @ c # assert_sub A (pre @ [c]) cs r"

definition escaped :: "char \<Rightarrow> char" where
  \<comment> \<open>the character that \<open>\c\<close> matches when it matches one character\<close>
  "escaped c =
     (if c = CHR ''t'' then CHR 0x09 else if c = CHR ''n'' then CHR 0x0A
      else if c = CHR ''v'' then CHR 0x0B else if c = CHR ''f'' then CHR 0x0C
      else if c = CHR ''r'' then CHR 0x0D else if c = CHR ''0'' then CHR 0x00
      else if c = CHR ''1'' then CHR 0x01 else if c = CHR ''2'' then CHR 0x02
      else if c = CHR ''3'' then CHR 0x03 else if c = CHR ''4'' then CHR 0x04
      else if c = CHR ''5'' then CHR 0x05 else if c = CHR ''6'' then CHR 0x06
      else if c = CHR ''7'' then CHR 0x07 else c)"

definition atom_escape :: "char \<Rightarrow> regexp" where
  \<comment> \<open>\<open>new RegExp('\\' + c, 'g')\<close>\<close>
  "atom_escape c =
     (if c = CHR ''d'' then class_sub is_digit []
      else if c = CHR ''D'' then class_sub (\<lambda>x. \<not> is_digit x) []
      else if c = CHR ''w'' then class_sub is_word []
      else if c = CHR ''W'' then class_sub (\<lambda>x. \<not> is_word x) []
      else if c = CHR ''s'' then class_sub is_space []
      else if c = CHR ''S'' then class_sub (\<lambda>x. \<not> is_space x) []
      else if c = CHR ''b'' then assert_sub word_boundary []
      else if c = CHR ''B'' then assert_sub (\<lambda>pre s. \<not> word_boundary pre s) []
      else if c = CHR ''c'' then pair_sub (\<lambda>x. x = CHR 0x5C) (\<lambda>x. x = CHR ''c'') []
      else class_sub (\<lambda>x. x = escaped c) [])"

definition RegExp :: "string \<Rightarrow> regexp option" where
  "RegExp p =
     (if p = regex_source [] then Some (class_sub (\<lambda>x. \<not> (x = CHR ''-'' \<or> is_digit x)) [])
      else if length p = 7 \<and> p = regex_source [p ! 5]
      then (if p ! 5 = CHR 0x5C then None
            else if p ! 5 = CHR '']''
            then Some (pair_sub (\<lambda>x. \<not> (x = CHR ''-'' \<or> is_digit x)) (\<lambda>x. x = CHR '']'') [])
            else Some (class_sub (\<lambda>x. \<not> (x = CHR ''-'' \<or> is_digit x \<or> x = p ! 5)) []))
      else if p = decimalString_source [] then None
      else if length p = 2 \<and> p = decimalString_source [p ! 1] then Some (atom_escape (p ! 1))
      else None)"

subsection \<open>The settings\<close>

datatype regex = GroupRegex | VedicRegex

record defaultsTypes =
  symbol :: string
  separator :: string
  decimal :: string
  formatWithSymbol :: bool
  errorOnInvalid :: bool
  precision :: nat
  pattern :: string
  negativePattern :: string
  increment :: "jsnum option"
  groups :: "regex option"
  useVedic :: "bool option"

text \<open>
  The argument \<open>opts\<close> of the constructor has the type \<open>Partial<defaultsTypes>\<close>: every field
  may be absent.
\<close>

record partial_defaultsTypes =
  p_symbol :: "string option"
  p_separator :: "string option"
  p_decimal :: "string option"
  p_formatWithSymbol :: "bool option"
  p_errorOnInvalid :: "bool option"
  p_precision :: "nat option"
  p_pattern :: "string option"
  p_negativePattern :: "string option"
  p_increment :: "jsnum option"
  p_groups :: "regex option"
  p_useVedic :: "bool option"

definition defaults :: defaultsTypes where
  "defaults = \<lparr>symbol = ''$'', separator = '','', decimal = ''.'',
     formatWithSymbol = False, errorOnInvalid = False, precision = 2,
     pattern = ''!#'', negativePattern = ''-!#'',
     increment = None, groups = None, useVedic = None\<rparr>"

definition no_opts :: partial_defaultsTypes where
  \<comment> \<open>the object \<open>{}\<close>\<close>
  "no_opts = \<lparr>p_symbol = None, p_separator = None, p_decimal = None,
     p_formatWithSymbol = None, p_errorOnInvalid = None, p_precision = None,
     p_pattern = None, p_negativePattern = None,
     p_increment = None, p_groups = None, p_useVedic = None\<rparr>"

definition as_opts :: "defaultsTypes \<Rightarrow> partial_defaultsTypes" where
  \<comment> \<open>a settings object passed where \<open>opts\<close> is expected\<close>
  "as_opts s = \<lparr>p_symbol = Some (symbol s), p_separator = Some (separator s),
     p_decimal = Some (decimal s), p_formatWithSymbol = Some (formatWithSymbol s),
     p_errorOnInvalid = Some (errorOnInvalid s), p_precision = Some (precision s),
     p_pattern = Some (pattern s), p_negativePattern = Some (negativePattern s),
     p_increment = increment s, p_groups = groups s, p_useVedic = useVedic s\<rparr>"

definition assign :: "defaultsTypes \<Rightarrow> partial_defaultsTypes option \<Rightarrow> defaultsTypes" where
  \<comment> \<open>\<open>Object.assign({}, d, opts)\<close>: the fields present in \<open>opts\<close> replace those of \<open>d\<close>\<close>
  "assign d opts = (case opts of None \<Rightarrow> d | Some p \<Rightarrow>
     \<lparr>symbol = (case p_symbol p of None \<Rightarrow> symbol d | Some v \<Rightarrow> v),
      separator = (case p_separator p of None \<Rightarrow> separator d | Some v \<Rightarrow> v),
      decimal = (case p_decimal p of None \<Rightarrow> decimal d | Some v \<Rightarrow> v),
      formatWithSymbol = (case p_formatWithSymbol p of None \<Rightarrow> formatWithSymbol d | Some v \<Rightarrow> v),
      errorOnInvalid = (case p_errorOnInvalid p of None \<Rightarrow> errorOnInvalid d | Some v \<Rightarrow> v),
      precision = (case p_precision p of None \<Rightarrow> precision d | Some v \<Rightarrow> v),
      pattern = (case p_pattern p of None \<Rightarrow> pattern d | Some v \<Rightarrow> v),
      negativePattern = (case p_negativePattern p of None \<Rightarrow> negativePattern d | Some v \<Rightarrow> v),
      increment = (case p_increment p of None \<Rightarrow> increment d | Some v \<Rightarrow> Some v),
      groups = (case p_groups p of None \<Rightarrow> groups d | Some v \<Rightarrow> Some v),
      useVedic = (case p_useVedic p of None \<Rightarrow> useVedic d | Some v \<Rightarrow> Some v)\<rparr>)"

definition round' :: "jsnum \<Rightarrow> jsnum" where
  "round' v = math_round v"

definition pow :: "nat \<Rightarrow> jsnum" where
  \<comment> \<open>\<open>Math.pow(10, p)\<close>\<close>
  "pow p = round64 (10 ^ p)"

definition rounding :: "jsnum \<Rightarrow> jsnum \<Rightarrow> jsnum" where
  "rounding v inc = js_mul (round' (js_div v inc)) inc"

text \<open>
  The fields of an instance are declared \<open>number | undefined\<close> and
  \<open>defaultsTypes | undefined\<close>, and the methods test them before use.
\<close>

record currency =
  intValue :: "jsnum option"
  value' :: "jsnum option"
  settings' :: "defaultsTypes option"
  precision' :: "jsnum option"

subsection \<open>The methods\<close>

datatype input = Num jsnum | Str string | Cur currency | Other

definition line_end :: "char \<Rightarrow> bool" where
  "line_end c = (c = CHR 0x0A \<or> c = CHR 0x0D)"

fun paren_negative :: "string \<Rightarrow> string" where
  \<comment> \<open>\<open>.replace(/\((.*)\)/, '-$1')\<close>: the first opening parenthesis that has a closing
      one after it on the same line; the match runs to the last closing one on that line\<close>
  "paren_negative [] = []"
| "paren_negative (c # cs) =
     (let line = takeWhile (\<lambda>d. \<not> line_end d) cs;
          inner = rev (dropWhile (\<lambda>d. d \<noteq> CHR '')'') (rev line))
      in if c = CHR ''('' \<and> inner \<noteq> []
         then CHR ''-'' # butlast inner @ drop (length inner) cs
         else c # paren_negative cs)"

definition number_of :: "jsnum option \<Rightarrow> jsnum" where
  \<comment> \<open>\<open>Number(x)\<close> for \<open>x\<close> of type \<open>number | undefined\<close>\<close>
  "number_of x = (case x of None \<Rightarrow> NaN | Some n \<Rightarrow> n)"

definition parse_scaled ::
  "(string \<Rightarrow> regexp option) \<Rightarrow> input \<Rightarrow> defaultsTypes \<Rightarrow> error + jsnum" where
  \<comment> \<open>the value of \<open>v\<close> after the \<open>if\<close> chain of \<open>parse\<close>; for a string the two regular
      expressions are built first, then come the three replacements: parentheses to a
      minus sign, the matches of \<open>regex\<close> removed, the matches of \<open>decimalString\<close> to a point\<close>
  "parse_scaled rx v0 opts =
     (let prec = pow (precision opts)
      in case v0 of
           Cur c \<Rightarrow> Inr (js_mul (number_of (value' c)) prec)
         | Num n \<Rightarrow> Inr (js_mul n prec)
         | Str s \<Rightarrow>
             (case rx (regex_source (decimal opts)) of
                None \<Rightarrow> Inl SyntaxError
              | Some regex \<Rightarrow>
                 (case rx (decimalString_source (decimal opts)) of
                    None \<Rightarrow> Inl SyntaxError
                  | Some decimalString \<Rightarrow>
                     (let replacedValue = decimalString (regex (paren_negative s) []) ''.'';
                          v = js_mul (to_number replacedValue) prec
                      in Inr (if truthy v then v else Fin 0))))
         | Other \<Rightarrow> (if errorOnInvalid opts then Inl InvalidInput else Inr (Fin 0)))"

definition parse ::
  "(string \<Rightarrow> regexp option) \<Rightarrow> input \<Rightarrow> defaultsTypes \<Rightarrow> bool \<Rightarrow> error + jsnum" where
  \<comment> \<open>the chain, then \<open>v = Number(v.toFixed(4))\<close> and the optional \<open>round\<close>\<close>
  "parse rx v0 opts useRounding =
     (case parse_scaled rx v0 opts of
        Inl e \<Rightarrow> Inl e
      | Inr v \<Rightarrow>
         (case to_fixed 4 v of Inl e \<Rightarrow> Inl e
          | Inr s \<Rightarrow> Inr (if useRounding then round' (to_number s) else to_number s)))"

definition Currency ::
  "(string \<Rightarrow> regexp option) \<Rightarrow> input \<Rightarrow> partial_defaultsTypes option \<Rightarrow> error + currency" where
  \<comment> \<open>the constructor\<close>
  "Currency rx v0 opts =
     (let st = assign defaults opts;
          prec = pow (precision st)
      in case parse rx v0 st True of Inl e \<Rightarrow> Inl e
         | Inr v \<Rightarrow> Inr
            \<lparr>intValue = Some v,
             value' = Some (js_div v prec),
             settings' = Some (st
               \<lparr>increment := (if truthy_opt (increment st) then increment st
                               else Some (js_div (Fin 1) prec)),
                groups := (if useVedic st = Some True then Some VedicRegex
                           else Some GroupRegex)\<rparr>),
             precision' = Some prec\<rparr>)"

definition add_fallback ::
  "(string \<Rightarrow> regexp option) \<Rightarrow> currency \<Rightarrow> input \<Rightarrow> error + currency" where
  \<comment> \<open>the second \<open>return\<close> of \<open>add\<close> and of \<open>subtract\<close>, which are the same statement\<close>
  "add_fallback rx this n =
     (case parse rx n defaults True of Inl e \<Rightarrow> Inl e
      | Inr p \<Rightarrow> Currency rx (Num (js_div p (Fin (of_nat (precision defaults)))))
                  (map_option as_opts (settings' this)))"

definition add ::
  "(string \<Rightarrow> regexp option) \<Rightarrow> currency \<Rightarrow> input \<Rightarrow> error + currency" where
  "add rx this n =
     (case (intValue this, settings' this, precision' this) of
        (Some iv, Some st, Some pr) \<Rightarrow>
          (if truthy iv \<and> truthy pr
           then (case parse rx n st True of Inl e \<Rightarrow> Inl e
                 | Inr p \<Rightarrow> Currency rx (Num (js_div (js_add iv p) pr)) (Some (as_opts st)))
           else add_fallback rx this n)
      | _ \<Rightarrow> add_fallback rx this n)"

definition subtract ::
  "(string \<Rightarrow> regexp option) \<Rightarrow> currency \<Rightarrow> input \<Rightarrow> error + currency" where
  "subtract rx this n =
     (case (intValue this, settings' this, precision' this) of
        (Some iv, Some st, Some pr) \<Rightarrow>
          (if truthy iv \<and> truthy pr
           then (case parse rx n st True of Inl e \<Rightarrow> Inl e
                 | Inr p \<Rightarrow> Currency rx (Num (js_div (js_sub iv p) pr)) (Some (as_opts st)))
           else add_fallback rx this n)
      | _ \<Rightarrow> add_fallback rx this n)"

definition multiply ::
  "(string \<Rightarrow> regexp option) \<Rightarrow> currency \<Rightarrow> jsnum \<Rightarrow> error + currency option" where
  "multiply rx this n =
     (case (intValue this, settings' this) of
        (Some iv, Some st) \<Rightarrow>
          (if truthy iv
           then map_sum id Some
                  (Currency rx (Num (js_div (js_mul iv n) (pow (precision st)))) (Some (as_opts st)))
           else Inr None)
      | _ \<Rightarrow> Inr None)"

definition divide' ::
  "(string \<Rightarrow> regexp option) \<Rightarrow> currency \<Rightarrow> input \<Rightarrow> error + currency option" where
  "divide' rx this n =
     (case (intValue this, settings' this) of
        (Some iv, Some st) \<Rightarrow>
          (if truthy iv
           then (case parse rx n st False of Inl e \<Rightarrow> Inl e
                 | Inr d \<Rightarrow> map_sum id Some (Currency rx (Num (js_div iv d)) (Some (as_opts st))))
           else Inr None)
      | _ \<Rightarrow> Inr None)"

definition distribute_item ::
  "(string \<Rightarrow> regexp option) \<Rightarrow> jsnum \<Rightarrow> jsnum \<Rightarrow> defaultsTypes option \<Rightarrow> jsnum \<Rightarrow> jsnum \<Rightarrow> error + currency" where
  \<comment> \<open>the body of the loop of \<open>distribute\<close> up to the \<open>push\<close>\<close>
  "distribute_item rx iv pr st split pennies =
     (case Currency rx (Num (js_div split pr)) (map_option as_opts st) of Inl e \<Rightarrow> Inl e
      | Inr item \<Rightarrow>
         (if js_gt pennies (Fin 0)
          then (if js_ge iv (Fin 0) then add rx item (Num (js_div (Fin 1) pr))
                else subtract rx item (Num (js_div (Fin 1) pr)))
          else Inr item))"

partial_function (option) distribute_loop ::
  "(string \<Rightarrow> regexp option) \<Rightarrow> jsnum \<Rightarrow> jsnum \<Rightarrow> defaultsTypes option \<Rightarrow> jsnum \<Rightarrow> jsnum \<Rightarrow> jsnum \<Rightarrow> currency list
     \<Rightarrow> (error + currency list) option" where
  \<comment> \<open>\<open>for (; count !== 0; count--)\<close>, with \<open>pennies--\<close> in its body\<close>
  "distribute_loop rx iv pr st split cnt pennies distribution =
     (if is_zero cnt then Some (Inr distribution)
      else (case distribute_item rx iv pr st split pennies of
              Inl e \<Rightarrow> Some (Inl e)
            | Inr item \<Rightarrow>
                distribute_loop rx iv pr st split (js_sub cnt (Fin 1)) (js_sub pennies (Fin 1))
                  (distribution @ [item])))"

definition distribute ::
  "(string \<Rightarrow> regexp option) \<Rightarrow> currency \<Rightarrow> jsnum \<Rightarrow> (error + currency list option) option" where
  \<comment> \<open>the outer option is \<open>None\<close> when the loop does not end\<close>
  "distribute rx this cnt =
     (case (intValue this, precision' this) of
        (Some iv, Some pr) \<Rightarrow>
          (if truthy iv \<and> truthy pr
           then (let split = (if js_ge iv (Fin 0) then math_floor (js_div iv cnt)
                              else math_ceil (js_div iv cnt));
                     pennies = math_abs (js_sub iv (js_mul split cnt))
                 in map_option (map_sum id Some)
                      (distribute_loop rx iv pr (settings' this) split cnt pennies []))
           else Some (Inr None))
      | _ \<Rightarrow> Some (Inr None))"

definition dollars :: "currency \<Rightarrow> jsnum option" where
  "dollars this = (case value' this of None \<Rightarrow> None
     | Some v \<Rightarrow> if truthy v then Some (to_int32 v) else None)"

definition cents :: "currency \<Rightarrow> jsnum option" where
  "cents this =
     (case (intValue this, precision' this) of
        (Some iv, Some pr) \<Rightarrow>
          (if truthy iv \<and> truthy pr then Some (to_int32 (js_rem iv pr)) else None)
      | _ \<Rightarrow> None)"

definition toString :: "currency \<Rightarrow> error + string option" where
  "toString this =
     (case (intValue this, settings' this, precision' this) of
        (Some iv, Some st, Some pr) \<Rightarrow>
          (if truthy iv \<and> truthy_opt (increment st) \<and> truthy pr
           then map_sum id Some
                  (to_fixed (precision st) (rounding (js_div iv pr) (number_of (increment st))))
           else Inr None)
      | _ \<Rightarrow> Inr None)"

definition split_on :: "char \<Rightarrow> string \<Rightarrow> string \<times> string option" where
  \<comment> \<open>the first two elements of \<open>s.split(c)\<close>\<close>
  "split_on c s =
     (let rest = dropWhile (\<lambda>d. d \<noteq> c) s
      in (takeWhile (\<lambda>d. d \<noteq> c) s,
          if rest = [] then None else Some (takeWhile (\<lambda>d. d \<noteq> c) (tl rest))))"

definition lookahead :: "regex \<Rightarrow> string \<Rightarrow> bool" where
  \<comment> \<open>\<open>(?=(\d{3})+\b)\<close> and \<open>(?=(\d\d)+\d\b)\<close> after a digit: the digits that follow are a
      positive multiple of three, or an odd number from three on, and end at a word
      boundary\<close>
  "lookahead re s =
     (let n = length (takeWhile is_digit s); rest = dropWhile is_digit s
      in (case re of GroupRegex \<Rightarrow> 0 < n \<and> n mod 3 = 0 | VedicRegex \<Rightarrow> 3 \<le> n \<and> odd n)
         \<and> (case rest of [] \<Rightarrow> True | c # _ \<Rightarrow> \<not> is_word c))"

definition last_group :: "regex \<Rightarrow> string \<Rightarrow> string" where
  \<comment> \<open>the second capture of a match, the last group of digits before the word boundary\<close>
  "last_group re s =
     (let n = length (takeWhile is_digit s)
      in case re of GroupRegex \<Rightarrow> take 3 (drop (n - 3) s) | VedicRegex \<Rightarrow> take 2 (drop (n - 3) s))"

fun group_digits :: "regex \<Rightarrow> string \<Rightarrow> string \<Rightarrow> string \<Rightarrow> string" where
  \<comment> \<open>\<open>s.replace(groups, '$1' + separator)\<close>; \<open>pre\<close> is the text already passed\<close>
  "group_digits re sep pre [] = []"
| "group_digits re sep pre (c # cs) =
     (if is_digit c \<and> lookahead re cs
      then substitution [c] pre cs [[c], last_group re cs] (''$1'' @ sep)
      else [c])
     @ group_digits re sep (pre @ [c]) cs"

definition replace_first :: "char \<Rightarrow> string \<Rightarrow> string \<Rightarrow> string" where
  \<comment> \<open>\<open>s.replace(c, by)\<close> for a pattern of one character: its first occurrence\<close>
  "replace_first c by s =
     (let pre = takeWhile (\<lambda>d. d \<noteq> c) s
      in case dropWhile (\<lambda>d. d \<noteq> c) s of
           [] \<Rightarrow> s
         | m # post \<Rightarrow> pre @ substitution [m] pre post [] by @ post)"

definition format :: "currency \<Rightarrow> bool option \<Rightarrow> error + string option" where
  "format this useSymbol =
     (let st = (case settings' this of None \<Rightarrow> defaults | Some s \<Rightarrow> s)
      in case toString this of Inl e \<Rightarrow> Inl e
         | Inr str \<Rightarrow>
            (let text = (case str of None \<Rightarrow> ''undefined'' | Some s \<Rightarrow> s);
                 values = split_on CHR ''.''
                            (case text of [] \<Rightarrow> [] | c # cs \<Rightarrow> if c = CHR ''-'' then cs else text);
                 use = (case useSymbol of None \<Rightarrow> formatWithSymbol st | Some b \<Rightarrow> b)
             in case (value' this, groups st) of
                  (Some v, Some re) \<Rightarrow>
                    (if truthy v
                     then Inr (Some
                       (replace_first CHR ''#''
                          (group_digits re (separator st) [] (fst values)
                           @ (case snd values of None \<Rightarrow> []
                              | Some c \<Rightarrow> if c = [] then [] else decimal st @ c))
                          (replace_first CHR ''!'' (if use then symbol st else [])
                             (if js_ge v (Fin 0) then pattern st else negativePattern st))))
                     else Inr None)
                | _ \<Rightarrow> Inr None))"

definition toJSON :: "currency \<Rightarrow> jsnum option" where
  "toJSON this = value' this"

section \<open>The specification's rounding rule\<close>

text \<open>
  The specification describes the last two steps of \<open>parse\<close> as a rounding to four decimal
  places followed by a rounding to the nearest integer, half away from zero. The two
  functions below follow its words, to be compared with the code.
\<close>

definition round4 :: "rat \<Rightarrow> rat" where
  \<comment> \<open>"round the scaled value to 4 decimal places": the nearest multiple of \<open>10 ^ - 4\<close>, a
      tie away from zero\<close>
  "round4 x = (if x < 0 then - 1 else 1) * of_int \<lfloor>\<bar>x\<bar> * 10 ^ 4 + 1 / 2\<rfloor> / 10 ^ 4"

definition half_away :: "rat \<Rightarrow> int" where
  \<comment> \<open>"round to the nearest integer using round-half-away-from-zero"\<close>
  "half_away x = (if x < 0 then - \<lfloor>- x + 1 / 2\<rfloor> else \<lfloor>x + 1 / 2\<rfloor>)"

definition plain :: "string \<Rightarrow> bool" where
  \<comment> \<open>a string of digits, points and minus signs\<close>
  "plain s = list_all (\<lambda>c. is_digit c \<or> c = CHR ''.'' \<or> c = CHR ''-'') s"


section \<open>Properties of the rounding to binary64\<close>

lemma bits_numeral [simp]:
  "bits 0 = 0" "bits 1 = 1" "bits (Suc 0) = 1"
  "bits (numeral (Num.Bit0 k)) = Suc (bits (numeral k))"
  "bits (numeral (Num.Bit1 k)) = Suc (bits (numeral k))"
  "bits (numeral Num.One) = 1"
proof -
  show "bits 0 = 0" by (simp add: bits.simps)
  show b1: "bits 1 = 1" by (simp add: bits.simps)
  then show "bits (Suc 0) = 1" by simp
  have "numeral (Num.Bit0 k) div 2 = (numeral k :: nat)" by simp
  then show "bits (numeral (Num.Bit0 k)) = Suc (bits (numeral k))"
    by (subst bits.simps) simp
  have "numeral (Num.Bit1 k) div 2 = (numeral k :: nat)" by simp
  then show "bits (numeral (Num.Bit1 k)) = Suc (bits (numeral k))"
    by (subst bits.simps) simp
  show "bits (numeral Num.One) = 1" using b1 by simp
qed

lemma floor_rat_numeral [simp]:
  "\<lfloor>numeral a / numeral b :: rat\<rfloor> = numeral a div numeral b"
  "\<lfloor>- (numeral a / numeral b) :: rat\<rfloor> = - numeral a div numeral b"
  "\<lfloor>1 / numeral b :: rat\<rfloor> = 1 div numeral b"
  "\<lfloor>- (1 / numeral b) :: rat\<rfloor> = - 1 div numeral b"
proof -
  show "\<lfloor>numeral a / numeral b :: rat\<rfloor> = numeral a div numeral b"
    using floor_divide_of_int_eq [of "numeral a" "numeral b", where ?'a = rat] by simp
  show "\<lfloor>- (numeral a / numeral b) :: rat\<rfloor> = - numeral a div numeral b"
    using floor_divide_of_int_eq [of "- numeral a" "numeral b", where ?'a = rat] by simp
  show "\<lfloor>1 / numeral b :: rat\<rfloor> = 1 div numeral b"
    using floor_divide_of_int_eq [of 1 "numeral b", where ?'a = rat] by simp
  show "\<lfloor>- (1 / numeral b) :: rat\<rfloor> = - 1 div numeral b"
    using floor_divide_of_int_eq [of "- 1" "numeral b", where ?'a = rat] by simp
qed

lemma replicate_numeral_eval:
  "replicate (numeral k) x = x # replicate (pred_numeral k) x"
  by (simp add: numeral_eq_Suc)

lemma bits_bounds: "0 < n \<Longrightarrow> 2 ^ (bits n - 1) \<le> n \<and> n < 2 ^ bits n"
proof (induction n rule: bits.induct)
  case (1 n)
  show ?case
  proof (cases "n div 2 = 0")
    case True
    with 1 have "n = 1" by (simp add: div_eq_0_iff) 
    then show ?thesis by (simp add: bits.simps)
  next
    case False
    then have pos: "0 < n div 2" by simp
    have n0: "n \<noteq> 0" using 1 by simp
    from 1(1) [OF n0 pos] have ih: "2 ^ (bits (n div 2) - 1) \<le> n div 2" "n div 2 < 2 ^ bits (n div 2)"
      by simp_all
    have b: "bits n = Suc (bits (n div 2))" using n0 by (subst bits.simps) simp
    have bp: "0 < bits (n div 2)" using pos by (subst bits.simps) simp
    have "2 ^ (bits n - 1) = 2 * 2 ^ (bits (n div 2) - 1)"
      using b bp by (cases "bits (n div 2)") simp_all
    also have "\<dots> \<le> 2 * (n div 2)" using ih(1) by simp
    also have "\<dots> \<le> n" by simp
    finally have lo: "2 ^ (bits n - 1) \<le> n" .
    have "n < 2 * (n div 2) + 2" by presburger
    also have "\<dots> \<le> 2 * 2 ^ bits (n div 2)" using ih(2) by simp
    finally have "n < 2 ^ bits n" using b by simp
    with lo show ?thesis by simp
  qed
qed

lemma pow2_powi: "pow2 e = 2 powi e"
  by (simp add: pow2_def power_int_def field_simps)

lemma pow2_pos [simp]: "0 < pow2 e"
  by (simp add: pow2_def)

lemma pow2_add: "pow2 (a + b) = pow2 a * pow2 b"
  by (simp add: pow2_powi power_int_add)

lemma pow2_nat: "pow2 (int n) = 2 ^ n"
  by (simp add: pow2_def)

lemma pow2_mono: "a \<le> b \<Longrightarrow> pow2 a \<le> pow2 b"
  by (simp add: pow2_powi power_int_increasing)

lemma pow2_strict_mono: "a < b \<Longrightarrow> pow2 a < pow2 b"
  by (simp add: pow2_powi power_int_strict_increasing)

lemma ilog2_bounds:
  assumes "0 < x"
  shows "pow2 (ilog2 x) \<le> x \<and> x < pow2 (ilog2 x + 1)"
proof (cases "1 \<le> x")
  case True
  define n where "n = nat \<lfloor>x\<rfloor>"
  have n1: "0 < n" using True by (simp add: n_def)
  have "0 \<le> \<lfloor>x\<rfloor>" using True by simp
  then have nn: "(of_nat n :: rat) = of_int \<lfloor>x\<rfloor>" by (simp add: n_def)
  have fl: "of_nat n \<le> x" "x < of_nat n + 1"
    unfolding nn by linarith+
  from bits_bounds [OF n1] have b: "2 ^ (bits n - 1) \<le> n" "n < 2 ^ bits n" by simp_all
  have bp: "0 < bits n" using n1 by (subst bits.simps) simp
  have e: "ilog2 x = int (bits n - 1)" using True bp by (simp add: ilog2_def n_def)
  have "(of_nat (2 ^ (bits n - 1)) :: rat) \<le> of_nat n" using b(1) by (rule of_nat_mono)
  then have "(2::rat) ^ (bits n - 1) \<le> of_nat n" by simp
  then have "(2::rat) ^ (bits n - 1) \<le> x" using fl(1) by (rule order_trans)
  then have lo: "pow2 (ilog2 x) \<le> x" unfolding e pow2_nat .
  have "n + 1 \<le> 2 ^ bits n" using b(2) by simp
  then have "(of_nat (n + 1) :: rat) \<le> of_nat (2 ^ bits n)" by (rule of_nat_mono)
  then have "of_nat n + 1 \<le> (2::rat) ^ bits n" by simp
  with fl(2) have "x < 2 ^ bits n" by (rule less_le_trans)
  moreover have "ilog2 x + 1 = int (bits n)" using e bp by simp
  ultimately have "x < pow2 (ilog2 x + 1)" by (simp add: pow2_nat)
  with lo show ?thesis by simp
next
  case False
  then have x1: "x < 1" by simp
  define y where "y = 1 / x"
  have y1: "1 < y" using assms x1 by (simp add: y_def)
  define n where "n = nat \<lfloor>y\<rfloor>"
  have n1: "0 < n" using y1 by (simp add: n_def)
  have "0 \<le> \<lfloor>y\<rfloor>" using y1 by simp
  then have nn: "(of_nat n :: rat) = of_int \<lfloor>y\<rfloor>" by (simp add: n_def)
  have fl: "of_nat n \<le> y" "y < of_nat n + 1"
    unfolding nn by linarith+
  from bits_bounds [OF n1] have b: "2 ^ (bits n - 1) \<le> n" "n < 2 ^ bits n" by simp_all
  have bp: "0 < bits n" using n1 by (subst bits.simps) simp
  define l where "l = bits n - 1"
  have "(of_nat (2 ^ l) :: rat) \<le> of_nat n" using b(1) unfolding l_def by (rule of_nat_mono)
  then have "(2::rat) ^ l \<le> of_nat n" by simp
  then have ylo: "2 ^ l \<le> y" using fl(1) by (rule order_trans)
  have "n + 1 \<le> 2 ^ bits n" using b(2) by simp
  then have "(of_nat (n + 1) :: rat) \<le> of_nat (2 ^ bits n)" by (rule of_nat_mono)
  then have "of_nat n + 1 \<le> (2::rat) ^ bits n" by simp
  with fl(2) have "y < 2 ^ bits n" by (rule less_le_trans)
  moreover have "l + 1 = bits n" using bp by (simp add: l_def)
  ultimately have yhi: "y < 2 ^ (l + 1)" by simp
  have xlo: "1 / 2 ^ (l + 1) < x"
    using yhi assms by (simp add: y_def field_simps)
  have xhi: "x \<le> 1 / 2 ^ l"
    using ylo assms by (simp add: y_def field_simps)
  have nl: "nat (int (bits n) - 1) = l" "int (bits n) - 1 = int l"
    using bp unfolding l_def by linarith+
  have il: "ilog2 x = (if x * 2 ^ l = 1 then - int l else - int l - 1)"
    using False nl unfolding ilog2_def Let_def n_def [symmetric] y_def [symmetric] by simp
  show ?thesis
  proof (cases "x * 2 ^ l = 1")
    case True
    then have xe: "x = 1 / 2 ^ l" by (simp add: field_simps)
    have e: "ilog2 x = - int l" using il True by simp
    have p1: "pow2 (- int l) = 1 / 2 ^ l" by (simp add: pow2_def)
    have "pow2 (- int l) < pow2 (- int l + 1)" by (rule pow2_strict_mono) simp
    then show ?thesis using xe e p1 by simp
  next
    case F: False
    have e: "ilog2 x = - int l - 1" using il F by simp
    have p1: "pow2 (- int l - 1) = 1 / 2 ^ (l + 1)" by (simp add: pow2_def nat_add_distrib)
    have p2: "pow2 (- int l - 1 + 1) = 1 / 2 ^ l" by (simp add: pow2_def)
    have "x \<noteq> 1 / 2 ^ l" using F by (auto simp: field_simps)
    then have "x < 1 / 2 ^ l" using xhi by simp
    then show ?thesis using xlo e p1 p2 by simp
  qed
qed

lemma round_even_near: "\<bar>of_int (round_even y) - y\<bar> \<le> 1 / 2"
proof -
  have "of_int \<lfloor>y\<rfloor> \<le> y" "y < of_int \<lfloor>y\<rfloor> + 1" by linarith+
  then show ?thesis
    by (auto simp: round_even_def Let_def)
qed

lemma round_even_of_int [simp]: "round_even (of_int n) = n"
  by (simp add: round_even_def)

lemma round_even_ge: "of_int a \<le> y \<Longrightarrow> a \<le> round_even y"
proof -
  assume "of_int a \<le> y"
  then have "a \<le> \<lfloor>y\<rfloor>" by (simp add: le_floor_iff)
  then show ?thesis by (auto simp: round_even_def Let_def)
qed

lemma round_even_le: "y \<le> of_int b \<Longrightarrow> round_even y \<le> b"
proof -
  assume h: "y \<le> of_int b"
  show ?thesis
  proof (cases "y = of_int b")
    case True
    then show ?thesis by simp
  next
    case False
    with h have "y < of_int b" by simp
    then have "\<lfloor>y\<rfloor> < b" by (simp add: floor_less_iff)
    then show ?thesis by (auto simp: round_even_def Let_def)
  qed
qed

lemma pow2_numeral [simp]: "pow2 (numeral n) = 2 ^ numeral n"
  by (simp add: pow2_def)

lemma ilog2_less: "0 < x \<Longrightarrow> x < pow2 b \<Longrightarrow> ilog2 x < b"
proof (rule ccontr)
  assume x: "0 < x" "x < pow2 b" and n: "\<not> ilog2 x < b"
  then have "pow2 b \<le> pow2 (ilog2 x)" by (intro pow2_mono) simp
  with ilog2_bounds [OF x(1)] x(2) show False by simp
qed

lemma ilog2_ge: "0 < x \<Longrightarrow> pow2 b \<le> x \<Longrightarrow> b \<le> ilog2 x"
proof (rule ccontr)
  assume x: "0 < x" "pow2 b \<le> x" and n: "\<not> b \<le> ilog2 x"
  then have "pow2 (ilog2 x + 1) \<le> pow2 b" by (intro pow2_mono) simp
  with ilog2_bounds [OF x(1)] x(2) show False by simp
qed

text \<open>A number with at most 53 significant bits and an exponent in range is its own rounding.\<close>

lemma round64_exact:
  assumes r: "r = of_int M * pow2 E" and M: "\<bar>M\<bar> < 2 ^ 53" and E: "- 1074 \<le> E"
    and big: "\<bar>r\<bar> < 2 ^ 1024"
  shows "round64 r = Fin r"
proof (cases "r = 0")
  case True
  then show ?thesis by (simp add: round64_def)
next
  case False
  define a where "a = \<bar>r\<bar>"
  have a0: "0 < a" using False by (simp add: a_def)
  have aM: "a = of_int \<bar>M\<bar> * pow2 E" by (simp add: a_def r abs_mult abs_of_pos)
  define e where "e = ilog2 a"
  define q where "q = max (e - 52) (- 1074)"
  have "(of_int \<bar>M\<bar> :: rat) < of_int (2 ^ 53)" using M by (simp only: of_int_less_iff)
  then have "of_int \<bar>M\<bar> < (2::rat) ^ 53" by simp
  then have "a < 2 ^ 53 * pow2 E" unfolding aM by (simp add: mult_strict_right_mono)
  also have "\<dots> = pow2 (53 + E)" by (simp add: pow2_add)
  finally have "e < 53 + E" unfolding e_def by (rule ilog2_less [OF a0])
  then have qE: "q \<le> E" using E by (simp add: q_def)
  define d where "d = nat (E - q)"
  have "pow2 E = pow2 (int d) * pow2 q" using qE by (simp add: d_def pow2_add [symmetric])
  then have pE: "pow2 E = 2 ^ d * pow2 q" by (simp add: pow2_nat)
  have qnz: "pow2 q \<noteq> 0" by (simp add: pow2_def)
  have y: "a / pow2 q = of_int (\<bar>M\<bar> * 2 ^ d)" using qnz by (simp add: aM pE)
  have m: "round_even (a / pow2 q) = \<bar>M\<bar> * 2 ^ d" unfolding y by (rule round_even_of_int)
  have v: "of_int (round_even (a / pow2 q)) * pow2 q = a" unfolding m by (simp add: aM pE)
  have e1024: "e < 1024" unfolding e_def using big by (intro ilog2_less [OF a0]) (simp add: a_def)
  have novf: "\<not> (1024 \<le> e \<or> e = 1023 \<and> round_even (a / pow2 q) = 2 ^ 53)"
  proof
    assume "1024 \<le> e \<or> e = 1023 \<and> round_even (a / pow2 q) = 2 ^ 53"
    with e1024 have e: "e = 1023" and mm: "round_even (a / pow2 q) = 2 ^ 53" by auto
    have "q = 971" using e by (simp add: q_def)
    with v mm have "a = 2 ^ 53 * pow2 971" by simp
    then have "a = 2 ^ 1024" by simp
    with big show False by (simp add: a_def)
  qed
  have "round64 r = Fin (if r < 0 then - a else a)"
    using False novf a0 v unfolding round64_def Let_def a_def [symmetric] e_def [symmetric] q_def [symmetric]
    by simp
  then show ?thesis by (simp add: a_def)
qed

lemma round64_int: "\<bar>n\<bar> \<le> 2 ^ 53 \<Longrightarrow> round64 (of_int n) = Fin (of_int n)"
proof (cases "\<bar>n\<bar> = 2 ^ 53")
  case True
  then have "n = 9007199254740992 \<or> n = - 9007199254740992" by (simp add: abs_if split: if_splits)
  then show ?thesis
  proof
    assume "n = 9007199254740992"
    then show ?thesis by (simp add: round64_def ilog2_def round_even_def pow2_def Let_def)
  next
    assume "n = - 9007199254740992"
    then show ?thesis by (simp add: round64_def ilog2_def round_even_def pow2_def Let_def)
  qed
next
  case False
  assume "\<bar>n\<bar> \<le> 2 ^ 53"
  with False have lt: "\<bar>n\<bar> < 2 ^ 53" by simp
  have r: "(of_int n :: rat) = of_int n * pow2 0" by (simp add: pow2_def)
  have "\<bar>of_int n :: rat\<bar> = of_int \<bar>n\<bar>" by simp
  also have "\<dots> < of_int (2 ^ 53)" using lt by (simp only: of_int_less_iff)
  also have "\<dots> < (2::rat) ^ 1024" by simp
  finally have "\<bar>of_int n :: rat\<bar> < 2 ^ 1024" .
  then show ?thesis using round64_exact [OF r lt] by simp
qed

lemma round64_half: "\<bar>k\<bar> < 2 ^ 53 \<Longrightarrow> round64 (of_int k / 2) = Fin (of_int k / 2)"
proof -
  assume k: "\<bar>k\<bar> < 2 ^ 53"
  have r: "(of_int k / 2 :: rat) = of_int k * pow2 (- 1)" by (simp add: pow2_def)
  have "(of_int \<bar>k\<bar> :: rat) < of_int (2 ^ 53)" using k by (simp only: of_int_less_iff)
  then have "\<bar>of_int k :: rat\<bar> < 2 ^ 53" by simp
  then have "\<bar>of_int k / 2 :: rat\<bar> < 2 ^ 1024" by simp
  then show ?thesis using round64_exact [OF r k] by simp
qed

text \<open>In the normal range the rounding has a relative error of at most \<open>2 ^ - 53\<close>.\<close>

lemma round64_error:
  assumes lo: "pow2 (- 1022) \<le> \<bar>r\<bar>" and hi: "\<bar>r\<bar> < pow2 1023"
  shows "\<exists>v. round64 r = Fin v \<and> \<bar>v - r\<bar> \<le> \<bar>r\<bar> / 2 ^ 53 \<and> (0 < v) = (0 < r) \<and> v \<noteq> 0"
proof -
  define a where "a = \<bar>r\<bar>"
  have a0: "0 < a" using lo pow2_pos [of "- 1022"] unfolding a_def by linarith
  then have r0: "r \<noteq> 0" by (auto simp: a_def)
  define e where "e = ilog2 a"
  have e_lo: "- 1022 \<le> e" unfolding e_def using lo by (intro ilog2_ge [OF a0]) (simp add: a_def)
  have e_hi: "e < 1023" unfolding e_def using hi by (intro ilog2_less [OF a0]) (simp add: a_def)
  define q where "q = e - 52"
  have qmax: "max (e - 52) (- 1074) = q" using e_lo by (simp add: q_def)
  have pq: "0 < pow2 q" by simp
  have qnz: "pow2 q \<noteq> 0" by (simp add: pow2_def)
  from ilog2_bounds [OF a0] have ab: "pow2 e \<le> a" "a < pow2 (e + 1)" by (simp_all add: e_def)
  have "pow2 e = pow2 (52 + q)" "pow2 (e + 1) = pow2 (53 + q)" by (simp_all add: q_def add.commute)
  then have pe: "pow2 e = 2 ^ 52 * pow2 q" "pow2 (e + 1) = 2 ^ 53 * pow2 q"
    unfolding pow2_add by simp_all
  define y where "y = a / pow2 q"
  have ay: "a = y * pow2 q" using qnz by (simp add: y_def)
  have y_lo: "2 ^ 52 \<le> y" using ab(1) pq unfolding pe ay by simp
  have y_hi: "y < 2 ^ 53" using ab(2) pq unfolding pe ay by simp
  define m where "m = round_even y"
  have "of_int (2 ^ 52) \<le> y" using y_lo by simp
  then have m_lo: "2 ^ 52 \<le> m" unfolding m_def by (rule round_even_ge)
  have "y \<le> of_int (2 ^ 53)" using y_hi by simp
  then have m_hi: "m \<le> 2 ^ 53" unfolding m_def by (rule round_even_le)
  have near: "\<bar>of_int m - y\<bar> \<le> 1 / 2" unfolding m_def by (rule round_even_near)
  define v where "v = of_int m * pow2 q"
  have m_pos: "(0::rat) < of_int m" using m_lo by simp
  have v0: "0 < v" unfolding v_def using m_pos pq by (rule mult_pos_pos)
  have "\<bar>v - a\<bar> = \<bar>of_int m - y\<bar> * pow2 q"
    unfolding v_def ay by (simp add: left_diff_distrib [symmetric] abs_mult abs_of_pos)
  also have "\<dots> \<le> 1 / 2 * pow2 q" using near pq by (simp add: mult_right_mono)
  also have "\<dots> = pow2 e / 2 ^ 53" unfolding pe by simp
  also have "\<dots> \<le> a / 2 ^ 53" using ab(1) by (simp add: divide_right_mono)
  finally have err: "\<bar>v - a\<bar> \<le> a / 2 ^ 53" .
  have novf: "\<not> (1024 \<le> e \<or> e = 1023 \<and> m = 2 ^ 53)" using e_hi by simp
  have res: "round64 r = Fin (if r < 0 then - v else v)"
    using r0 novf v0 unfolding round64_def Let_def a_def [symmetric] e_def [symmetric] qmax
      y_def [symmetric] m_def [symmetric] v_def [symmetric]
    by simp
  show ?thesis
  proof (cases "r < 0")
    case True
    then have "a = - r" by (simp add: a_def)
    with err have "\<bar>- v - r\<bar> \<le> \<bar>r\<bar> / 2 ^ 53" unfolding a_def by (simp add: abs_minus_commute)
    then show ?thesis using True res v0 by auto
  next
    case False
    then have "a = r" by (simp add: a_def)
    with err have "\<bar>v - r\<bar> \<le> \<bar>r\<bar> / 2 ^ 53" unfolding a_def by simp
    then show ?thesis using False res v0 r0 by auto
  qed
qed

section \<open>Properties of the conversions between numbers and strings\<close>

lemma digit_cases: "d < 10 \<Longrightarrow> d = 0 \<or> d = 1 \<or> d = 2 \<or> d = 3 \<or> d = 4 \<or> d = 5 \<or> d = 6 \<or> d = 7
  \<or> d = 8 \<or> d = (9::nat)"
  by arith

lemma digit_char_props:
  assumes "d < 10"
  shows "is_digit (digit_char d)" and "digit_val (digit_char d) = d"
  using digit_cases [OF assms] by (auto simp: is_digit_def digit_char_def digit_val_def)

lemma is_digit_iff:
  "is_digit c \<longleftrightarrow> c = CHR ''0'' \<or> c = CHR ''1'' \<or> c = CHR ''2'' \<or> c = CHR ''3'' \<or> c = CHR ''4''
     \<or> c = CHR ''5'' \<or> c = CHR ''6'' \<or> c = CHR ''7'' \<or> c = CHR ''8'' \<or> c = CHR ''9''"
  by (auto simp: is_digit_def)

lemma digit_not_special:
  assumes "is_digit c"
  shows "c \<noteq> CHR ''.''" "c \<noteq> CHR ''-''" "c \<noteq> CHR ''+''" "c \<noteq> CHR '',''" "c \<noteq> CHR ''(''"
    "c \<noteq> CHR ''I''" "\<not> is_space c" "c \<noteq> CHR ''e''" "c \<noteq> CHR ''E''"
  using assms by (auto simp: is_digit_iff is_space_def)

lemma digits_of_digits: "list_all is_digit (digits_of n)"
proof (induction n rule: digits_of.induct)
  case (1 n)
  show ?case
  proof (cases "n < 10")
    case True
    then show ?thesis by (subst digits_of.simps) (simp add: digit_char_props)
  next
    case False
    have "n mod 10 < 10" by simp
    then have "is_digit (digit_char (n mod 10))" by (rule digit_char_props)
    with 1 False show ?thesis by (subst digits_of.simps) simp
  qed
qed

lemma digits_of_nonempty: "digits_of n \<noteq> []"
  by (subst digits_of.simps) simp

lemma nat_of_digits_snoc: "nat_of_digits (xs @ [c]) = 10 * nat_of_digits xs + digit_val c"
  by (simp add: nat_of_digits_def)

lemma nat_of_digits_of: "nat_of_digits (digits_of n) = n"
proof (induction n rule: digits_of.induct)
  case (1 n)
  show ?case
  proof (cases "n < 10")
    case True
    then show ?thesis
      by (subst digits_of.simps) (simp add: nat_of_digits_def digit_char_props)
  next
    case False
    have "n mod 10 < 10" by simp
    then have "digit_val (digit_char (n mod 10)) = n mod 10" by (rule digit_char_props)
    with 1 False show ?thesis
      by (subst digits_of.simps) (simp add: nat_of_digits_snoc)
  qed
qed

lemma nat_of_digits_zeros: "nat_of_digits (replicate k CHR ''0'' @ m) = nat_of_digits m"
proof -
  have z: "foldl (\<lambda>a c. 10 * a + digit_val c) 0 (replicate k CHR ''0'') = 0"
    by (induction k) (simp_all add: digit_val_def)
  show ?thesis by (simp add: nat_of_digits_def z)
qed

lemma zeros_digits: "list_all is_digit (replicate k CHR ''0'')"
  by (induction k) (simp_all add: is_digit_def)

lemma fixed_digits_shape:
  assumes "0 < fd"
  shows "\<exists>ip fp. fixed_digits fd n = ip @ CHR ''.'' # fp \<and> ip \<noteq> [] \<and> list_all is_digit ip
           \<and> list_all is_digit fp \<and> length fp = fd \<and> nat_of_digits (ip @ fp) = n"
proof -
  define m where "m = digits_of n"
  define z where "z = replicate (fd + 1 - length m) CHR ''0'' @ m"
  define ip where "ip = take (length z - fd) z"
  define fp where "fp = drop (length z - fd) z"
  have zl: "fd + 1 \<le> length z" by (simp add: z_def)
  have zd: "list_all is_digit z"
    by (simp add: z_def m_def digits_of_digits zeros_digits)
  have 1: "ip @ fp = z" by (simp add: ip_def fp_def)
  have 2: "ip \<noteq> []" using zl by (auto simp: ip_def)
  have 3: "length fp = fd" using zl by (simp add: fp_def)
  have "list_all is_digit (ip @ fp)" using zd 1 by simp
  then have 4: "list_all is_digit ip" "list_all is_digit fp" by simp_all
  have 5: "nat_of_digits (ip @ fp) = n"
    unfolding 1 by (simp add: z_def m_def nat_of_digits_zeros nat_of_digits_of)
  have 6: "fixed_digits fd n = ip @ CHR ''.'' # fp"
    using assms by (simp add: fixed_digits_def Let_def ip_def fp_def z_def m_def)
  show ?thesis using 2 3 4 5 6 by blast
qed

lemma takeWhile_digits: "list_all is_digit xs \<Longrightarrow> \<not> is_digit c \<Longrightarrow>
    takeWhile is_digit (xs @ c # ys) = xs \<and> dropWhile is_digit (xs @ c # ys) = c # ys"
  by (induction xs) simp_all

lemma takeWhile_all: "list_all P xs \<Longrightarrow> takeWhile P xs = xs \<and> dropWhile P xs = []"
  by (induction xs) simp_all

lemma not_digit_dot [simp]: "\<not> is_digit CHR ''.''" "\<not> is_digit CHR ''-''" "\<not> is_digit CHR '',''"
  by (simp_all add: is_digit_def)

lemma unsigned_decimal_fixed:
  assumes "ip \<noteq> []" "list_all is_digit ip" "list_all is_digit fp"
  shows "unsigned_decimal (ip @ CHR ''.'' # fp)
           = Some (of_nat (nat_of_digits (ip @ fp)) / 10 ^ length fp)"
proof -
  have 1: "takeWhile is_digit (ip @ CHR ''.'' # fp) = ip"
    "dropWhile is_digit (ip @ CHR ''.'' # fp) = CHR ''.'' # fp"
    using takeWhile_digits [OF assms(2), of "CHR ''.''" fp] by simp_all
  have 2: "takeWhile is_digit fp = fp" "dropWhile is_digit fp = []"
    using takeWhile_all [OF assms(3)] by simp_all
  show ?thesis
    using assms(1) by (simp add: unsigned_decimal_def Let_def 1 2 exponent_part_def)
qed

lemma unsigned_decimal_digits:
  assumes "ds \<noteq> []" "list_all is_digit ds"
  shows "unsigned_decimal ds = Some (of_nat (nat_of_digits ds))"
proof -
  have 2: "takeWhile is_digit ds = ds" "dropWhile is_digit ds = []"
    using takeWhile_all [OF assms(2)] by simp_all
  show ?thesis
    unfolding unsigned_decimal_def Let_def 2 using assms(1)
    by (simp add: exponent_part_def)
qed

lemma plain_char:
  assumes "is_digit c \<or> c = CHR ''.'' \<or> c = CHR ''-''"
  shows "\<not> is_space c" "c \<noteq> CHR ''x''" "c \<noteq> CHR ''X''" "c \<noteq> CHR ''o''" "c \<noteq> CHR ''O''"
    "c \<noteq> CHR ''b''" "c \<noteq> CHR ''B''" "c \<noteq> CHR ''I''" "c \<noteq> CHR ''+''"
  using assms by (auto simp: is_digit_iff is_space_def)

lemma plain_radix: "plain s \<Longrightarrow> radix_literal s = None"
proof (cases s)
  case Nil
  then show ?thesis by (simp add: radix_literal_def)
next
  case (Cons z t)
  assume p: "plain s"
  show ?thesis
  proof (cases t)
    case Nil
    with Cons show ?thesis by (simp add: radix_literal_def)
  next
    case (Cons x ds)
    with p \<open>s = z # t\<close> have "is_digit x \<or> x = CHR ''.'' \<or> x = CHR ''-''"
      by (simp add: plain_def)
    from plain_char(2-7) [OF this] show ?thesis
      using Cons \<open>s = z # t\<close> by (simp add: radix_literal_def Let_def)
  qed
qed

lemma plain_trim: "plain s \<Longrightarrow> trim s = s"
proof -
  assume p: "plain s"
  have ns: "\<not> is_space c" if "c \<in> set s" for c
  proof -
    from p that have "is_digit c \<or> c = CHR ''.'' \<or> c = CHR ''-''"
      by (simp add: plain_def list_all_iff)
    then show ?thesis by (rule plain_char)
  qed
  have 1: "dropWhile is_space s = s"
  proof (cases s)
    case Nil
    then show ?thesis by simp
  next
    case (Cons c cs)
    then have "\<not> is_space c" using ns by simp
    with Cons show ?thesis by simp
  qed
  have 2: "dropWhile is_space (rev s) = rev s"
  proof (cases "rev s")
    case Nil
    then show ?thesis by simp
  next
    case (Cons c cs)
    then have "c \<in> set (rev s)" by simp
    then have "\<not> is_space c" using ns by simp
    with Cons show ?thesis by simp
  qed
  show ?thesis by (simp add: trim_def 1 2)
qed

lemma to_number_plain:
  assumes body: "body \<noteq> []" "is_digit (hd body)" "plain body"
    and val: "unsigned_decimal body = Some r"
  shows "to_number ((if neg then ''-'' else []) @ body)
           = (if r = 0 then signed_zero neg else round64 (if neg then - r else r))"
proof -
  define s where "s = (if neg then ''-'' else []) @ body"
  have ps: "plain s" using body(3) by (simp add: s_def plain_def)
  have sne: "s \<noteq> []" using body(1) by (simp add: s_def)
  have hb: "hd body \<noteq> CHR ''-''" "hd body \<noteq> CHR ''+''" "hd body \<noteq> CHR ''I''"
    using digit_not_special [OF body(2)] by simp_all
  have hs: "(hd s = CHR ''-'') = neg" "hd s \<noteq> CHR ''+''"
    using hb body(1) by (auto simp: s_def)
  have tl: "(if hd s = CHR ''-'' \<or> hd s = CHR ''+'' then tl s else s) = body"
    using hs hb body(1) by (auto simp: s_def)
  have ninf: "body \<noteq> ''Infinity''" using hb(3) by auto
  show ?thesis
    unfolding s_def [symmetric] to_number_def Let_def plain_trim [OF ps] plain_radix [OF ps] tl
    using sne ninf hs(1) val by simp
qed

lemma to_number_fixed:
  "to_number ((if neg then ''-'' else []) @ fixed_digits fd n)
     = (if n = 0 then signed_zero neg
        else round64 ((if neg then - 1 else 1) * of_nat n / 10 ^ fd))"
proof (cases "fd = 0")
  case True
  define ds where "ds = digits_of n"
  have d: "ds \<noteq> []" "list_all is_digit ds" "nat_of_digits ds = n"
    by (simp_all add: ds_def digits_of_nonempty digits_of_digits nat_of_digits_of)
  have h: "is_digit (hd ds)" using d(1,2) by (cases ds) simp_all
  have p: "plain ds" using d(2) by (simp add: plain_def list_all_iff)
  have f: "fixed_digits fd n = ds" using True by (simp add: fixed_digits_def ds_def)
  show ?thesis
    unfolding f to_number_plain [OF d(1) h p unsigned_decimal_digits [OF d(1,2)]] d(3)
    using True by simp
next
  case False
  then have "0 < fd" by simp
  from fixed_digits_shape [OF this, of n] obtain ip fp where
    s: "fixed_digits fd n = ip @ CHR ''.'' # fp" and ip: "ip \<noteq> []" "list_all is_digit ip"
    and fp: "list_all is_digit fp" "length fp = fd" and v: "nat_of_digits (ip @ fp) = n"
    by blast
  have ne: "ip @ CHR ''.'' # fp \<noteq> []" by simp
  have h: "is_digit (hd (ip @ CHR ''.'' # fp))" using ip by (cases ip) simp_all
  have p: "plain (ip @ CHR ''.'' # fp)" using ip(2) fp(1) by (auto simp: plain_def list_all_iff)
  show ?thesis
    unfolding s to_number_plain [OF ne h p unsigned_decimal_fixed [OF ip fp(1)]] v fp(2)
    by simp
qed

lemma to_fixed_Fin:
  assumes "fd \<le> 100" "\<bar>r\<bar> < 10 ^ 21"
  shows "to_fixed fd (Fin r)
           = Inr ((if r < 0 then ''-'' else []) @ fixed_digits fd (nat \<lfloor>\<bar>r\<bar> * 10 ^ fd + 1 / 2\<rfloor>))"
  using assms by (simp add: to_fixed_def)

text \<open>
  Printing a number with \<open>fd\<close> decimals and reading it back: when the number is within
  half a unit of the last place of \<open>n / 10 ^ fd\<close>, the result is the rounding of that.
\<close>

lemma refix:
  assumes fd: "fd \<le> 100" and n: "0 < n" and r21: "\<bar>r\<bar> < 10 ^ 21"
    and near: "\<bar>\<bar>r\<bar> * 10 ^ fd - of_nat n\<bar> < 1 / 2"
  shows "to_fixed fd (Fin r) = Inr ((if r < 0 then ''-'' else []) @ fixed_digits fd n)"
    and "to_number ((if r < 0 then ''-'' else []) @ fixed_digits fd n)
           = round64 ((if r < 0 then - 1 else 1) * of_nat n / 10 ^ fd)"
proof -
  define t where "t = \<bar>r\<bar> * 10 ^ fd"
  have "of_nat n - 1 / 2 < t" "t < of_nat n + 1 / 2"
    using near unfolding t_def [symmetric] by linarith+
  then have "\<lfloor>t + 1 / 2\<rfloor> = int n"
    by (intro floor_unique) simp_all
  then have fl: "nat \<lfloor>\<bar>r\<bar> * 10 ^ fd + 1 / 2\<rfloor> = n" by (simp add: t_def)
  show "to_fixed fd (Fin r) = Inr ((if r < 0 then ''-'' else []) @ fixed_digits fd n)"
    unfolding to_fixed_Fin [OF fd r21] fl by simp
  show "to_number ((if r < 0 then ''-'' else []) @ fixed_digits fd n)
           = round64 ((if r < 0 then - 1 else 1) * of_nat n / 10 ^ fd)"
    using n by (simp add: to_number_fixed)
qed

section \<open>Evaluation\<close>

lemmas jsnum_eval = round64_def ilog2_def round_even_def pow2_def Let_def
  js_mul_def js_div_def js_add_def js_sub_def js_neg_def js_rem_def js_ge_def js_gt_def
  is_nan_def is_inf_def is_zero_def sign_neg_def rat_of_def truthy_def truthy_opt_def
  signed_zero_def signed_inf_def math_round_def math_floor_def math_ceil_def math_abs_def
  to_int32_def

lemmas string_eval = replicate_numeral_eval is_digit_def is_word_def digit_char_def digit_val_def digits_of.simps
  nat_of_digits_def fixed_digits_def to_fixed_def is_space_def trim_def exponent_part_def
  unsigned_decimal_def radix_literal_def to_number_def

lemmas currency_eval = defaults_def no_opts_def as_opts_def assign_def round'_def pow_def
  rounding_def line_end_def number_of_def parse_scaled_def parse_def Currency_def
  add_fallback_def add_def subtract_def multiply_def divide'_def distribute_item_def
  distribute_def dollars_def cents_def toString_def split_on_def lookahead_def format_def
  group_ref_def regex_source_def decimalString_source_def word_boundary_def escaped_def
  atom_escape_def RegExp_def last_group_def replace_first_def

section \<open>Parsing amounts\<close>

lemma pow_exact:
  assumes "p \<le> 22"
  shows "pow p = Fin (10 ^ p)"
proof -
  have "(5::int) ^ p \<le> 5 ^ 22" using assms by (intro power_increasing) simp_all
  then have M: "\<bar>(5::int) ^ p\<bar> < 2 ^ 53" by simp
  have r: "(10::rat) ^ p = of_int (5 ^ p) * pow2 (int p)"
  proof -
    have "(10::rat) ^ p = (5 * 2) ^ p" by simp
    also have "\<dots> = 5 ^ p * 2 ^ p" by (rule power_mult_distrib)
    finally show ?thesis by (simp add: pow2_nat)
  qed
  have "(10::rat) ^ p \<le> 10 ^ 22" using assms by (intro power_increasing) simp_all
  also have "\<dots> < 2 ^ 1024" by simp
  finally have big: "\<bar>(10::rat) ^ p\<bar> < 2 ^ 1024" by simp
  have E: "- 1074 \<le> int p" by simp
  show ?thesis unfolding pow_def using round64_exact [OF r M E big] .
qed

lemma pow_bounds:
  assumes "p \<le> 22"
  shows "(1::rat) \<le> 10 ^ p" and "(10::rat) ^ p \<le> 10000000000000000000000"
proof -
  show "(1::rat) \<le> 10 ^ p" by simp
  have "(10::rat) ^ p \<le> 10 ^ 22" using assms by (intro power_increasing) simp_all
  then show "(10::rat) ^ p \<le> 10000000000000000000000" by simp
qed

lemma round64_wide:
  assumes "1 / 1000000000000000000000000000000 \<le> \<bar>r\<bar>" and "\<bar>r\<bar> \<le> 1000000000000000000000000000000"
  shows "\<exists>v. round64 r = Fin v \<and> \<bar>v - r\<bar> \<le> \<bar>r\<bar> / 9007199254740992
           \<and> (0 < v) = (0 < r) \<and> v \<noteq> 0"
proof -
  have "pow2 (- 1022) \<le> 1 / 1000000000000000000000000000000" by (simp add: pow2_def)
  with assms(1) have lo: "pow2 (- 1022) \<le> \<bar>r\<bar>" by linarith
  have "(1000000000000000000000000000000::rat) < pow2 1023" by (simp add: pow2_def)
  with assms(2) have hi: "\<bar>r\<bar> < pow2 1023" by linarith
  from round64_error [OF lo hi] show ?thesis by simp
qed

text \<open>
  The quotient of a number \<open>X\<close> between one half and \<open>10 ^ 12\<close> by a scale factor \<open>P\<close> is
  rounded with a relative error of at most \<open>2 ^ - 53\<close>.
\<close>

lemma round64_scaled:
  fixes X P :: rat
  assumes X: "1 / 2 \<le> X" "X \<le> 1000000000000" and P: "1 \<le> P" "P \<le> 10000000000000000000000"
  shows "\<exists>v. round64 (X / P) = Fin v \<and> 0 < v \<and> \<bar>v * P - X\<bar> \<le> X / 9007199254740992"
proof -
  have P0: "0 < P" using P by linarith
  have X0: "0 < X" using X by linarith
  have lo: "(1 / 2) / 10000000000000000000000 \<le> X / P"
    using X(1) P(2) P0 by (intro frac_le) simp_all
  have "X / P \<le> X / 1" using X0 P(1) by (intro divide_left_mono) simp_all
  then have hi: "X / P \<le> 1000000000000" using X(2) by simp
  have q0: "0 < X / P" using X0 P0 by simp
  have r: "1 / 1000000000000000000000000000000 \<le> \<bar>X / P\<bar>" "\<bar>X / P\<bar> \<le> 1000000000000000000000000000000"
    using lo hi q0 by linarith+
  from round64_wide [OF r] obtain v where
    v: "round64 (X / P) = Fin v" "\<bar>v - X / P\<bar> \<le> \<bar>X / P\<bar> / 9007199254740992" "(0 < v) = (0 < X / P)"
    by blast
  have v0: "0 < v" using v(3) q0 by simp
  have e1: "\<bar>v - X / P\<bar> * P \<le> (\<bar>X / P\<bar> / 9007199254740992) * P"
    using v(2) P0 by (intro mult_right_mono) simp_all
  have e2: "(\<bar>X / P\<bar> / 9007199254740992) * P = X / 9007199254740992"
    using P0 X0 by simp
  have e3: "\<bar>v - X / P\<bar> * P = \<bar>v * P - X\<bar>"
  proof -
    have "v * P - X = (v - X / P) * P" using P0 by (simp add: field_simps)
    then show ?thesis using P0 by (simp add: abs_mult)
  qed
  have "\<bar>v * P - X\<bar> \<le> X / 9007199254740992" using e1 unfolding e2 e3 .
  with v(1) v0 show ?thesis by blast
qed

text \<open>
  The numbers met on the way from a positive scaled integer \<open>K\<close> of at most \<open>10 ^ 11\<close> to its
  string and back, with the scale factor \<open>P\<close>: the value \<open>K / P\<close>, the increment \<open>1 / P\<close>, the
  quotient of the value by the increment, the product of \<open>K\<close> and the increment, and the
  value scaled by \<open>P\<close>.
\<close>

lemma scaled_pos:
  fixes K P :: rat
  assumes K: "1 \<le> K" "K \<le> 100000000000" and P: "1 \<le> P" "P \<le> 10000000000000000000000"
  shows "\<exists>a i y b c. round64 (K / P) = Fin a \<and> 0 < a
           \<and> round64 (1 / P) = Fin i \<and> 0 < i
           \<and> round64 (a / i) = Fin y \<and> \<bar>y - K\<bar> < 1 / 2
           \<and> round64 (K * i) = Fin b \<and> 0 < b \<and> \<bar>b * P - K\<bar> < 1 / 2
           \<and> round64 (a * P) = Fin c \<and> \<bar>c - K\<bar> < 1 / 20000"
proof -
  have P0: "0 < P" using P by linarith
  have K2: "1 / 2 \<le> K" "K \<le> 1000000000000" using K by linarith+
  from round64_scaled [OF K2 P] obtain a where
    a: "round64 (K / P) = Fin a" "0 < a" "\<bar>a * P - K\<bar> \<le> K / 9007199254740992"
    by blast
  have one: "1 / 2 \<le> (1::rat)" "(1::rat) \<le> 1000000000000" by simp_all
  from round64_scaled [OF one P] obtain i where
    i: "round64 (1 / P) = Fin i" "0 < i" "\<bar>i * P - 1\<bar> \<le> 1 / 9007199254740992"
    by blast
  define A where "A = a * P"
  define I where "I = i * P"
  have Ab: "K - K / 9007199254740992 \<le> A" "A \<le> K + K / 9007199254740992"
    using a(3) unfolding A_def by linarith+
  have Ib: "9007199254740991 / 9007199254740992 \<le> I" "I \<le> 9007199254740993 / 9007199254740992"
    using i(3) unfolding I_def by linarith+
  have A0: "0 < A" using Ab K by linarith
  have I0: "0 < I" using Ib by linarith
  \<comment> \<open>the quotient of the value by the increment\<close>
  define Q where "Q = A / I"
  have q: "a / i = Q" using P0 by (simp add: Q_def A_def I_def)
  have "A / I \<le> A / (9007199254740991 / 9007199254740992)"
    using A0 I0 Ib(1) by (intro divide_left_mono) simp_all
  then have q1: "Q \<le> A * 9007199254740992 / 9007199254740991" by (simp add: Q_def)
  have "A / (9007199254740993 / 9007199254740992) \<le> A / I"
    using A0 I0 Ib(2) by (intro divide_left_mono) simp_all
  then have q2: "A * 9007199254740992 / 9007199254740993 \<le> Q" by (simp add: Q_def)
  have qb: "K - K / 2000000000000000 \<le> Q" "Q \<le> K + K / 2000000000000000"
    using q1 q2 Ab K by linarith+
  have rq: "1 / 1000000000000000000000000000000 \<le> \<bar>Q\<bar>"
    "\<bar>Q\<bar> \<le> 1000000000000000000000000000000"
    using qb K by linarith+
  from round64_wide [OF rq] obtain y where
    y: "round64 Q = Fin y" "\<bar>y - Q\<bar> \<le> \<bar>Q\<bar> / 9007199254740992"
    by blast
  have "0 < Q" using qb K by linarith
  then have "\<bar>y - Q\<bar> \<le> Q / 9007199254740992" using y(2) by simp
  then have yb: "Q - Q / 9007199254740992 \<le> y" "y \<le> Q + Q / 9007199254740992"
    by linarith+
  have "- (1 / 2) < y - K" "y - K < 1 / 2" using yb qb K by linarith+
  then have y2: "\<bar>y - K\<bar> < 1 / 2" by linarith
  \<comment> \<open>the product of the scaled integer and the increment\<close>
  define T where "T = K * I"
  have "K * (9007199254740991 / 9007199254740992) \<le> K * I" "K * I \<le> K * (9007199254740993 / 9007199254740992)"
    using K(1) Ib by (intro mult_left_mono; simp)+
  then have Tb: "K - K / 9007199254740992 \<le> T" "T \<le> K + K / 9007199254740992"
    unfolding T_def by linarith+
  have T2: "1 / 2 \<le> T" "T \<le> 1000000000000" using Tb K by linarith+
  from round64_scaled [OF T2 P] obtain b where
    b: "round64 (T / P) = Fin b" "0 < b" "\<bar>b * P - T\<bar> \<le> T / 9007199254740992"
    by blast
  have t: "T / P = K * i" using P0 by (simp add: T_def I_def)
  have "- (1 / 2) < b * P - K" "b * P - K < 1 / 2" using b(3) Tb K by linarith+
  then have b2: "\<bar>b * P - K\<bar> < 1 / 2" by linarith
  \<comment> \<open>the value scaled back\<close>
  have rA: "1 / 1000000000000000000000000000000 \<le> \<bar>A\<bar>" "\<bar>A\<bar> \<le> 1000000000000000000000000000000"
    using Ab K by linarith+
  from round64_wide [OF rA] obtain c where
    c: "round64 A = Fin c" "\<bar>c - A\<bar> \<le> \<bar>A\<bar> / 9007199254740992"
    by blast
  have "\<bar>c - A\<bar> \<le> A / 9007199254740992" using c(2) A0 by simp
  then have cb: "A - A / 9007199254740992 \<le> c" "c \<le> A + A / 9007199254740992" by linarith+
  have "- (1 / 20000) < c - K" "c - K < 1 / 20000" using cb Ab K by linarith+
  then have c2: "\<bar>c - K\<bar> < 1 / 20000" by linarith
  show ?thesis
    using a(1,2) i(1,2) y(1) y2 b(1,2) b2 c(1) c2 unfolding q [symmetric] t A_def
    by blast
qed

lemma pow_two: "pow 2 = Fin 100"
  by (simp add: pow_def jsnum_eval)

lemma js_mul_Fin: "a \<noteq> 0 \<Longrightarrow> b \<noteq> 0 \<Longrightarrow> js_mul (Fin a) (Fin b) = round64 (a * b)"
  by (simp add: js_mul_def is_nan_def is_inf_def is_zero_def rat_of_def)

lemma js_div_Fin: "a \<noteq> 0 \<Longrightarrow> b \<noteq> 0 \<Longrightarrow> js_div (Fin a) (Fin b) = round64 (a / b)"
  by (simp add: js_div_def is_nan_def is_inf_def is_zero_def rat_of_def)

lemma round64_neg:
  assumes "round64 r = Fin v" and "v \<noteq> 0"
  shows "round64 (- r) = Fin (- v)"
proof -
  have r0: "r \<noteq> 0" using assms by (auto simp: round64_def)
  show ?thesis
  proof (cases "r < 0")
    case True
    then show ?thesis using assms r0
      by (auto simp: round64_def Let_def split: if_splits)
  next
    case False
    then show ?thesis using assms r0
      by (auto simp: round64_def Let_def split: if_splits)
  qed
qed

lemma scaled_signed:
  fixes P :: rat
  assumes k: "k \<noteq> 0" "\<bar>k\<bar> \<le> 10 ^ 11" and P: "1 \<le> P" "P \<le> 10000000000000000000000"
  shows "\<exists>a i y b c. round64 (of_int k / P) = Fin a \<and> (a < 0) = (k < 0) \<and> a \<noteq> 0
           \<and> round64 (1 / P) = Fin i \<and> 0 < i
           \<and> round64 (a / i) = Fin y \<and> \<bar>y - of_int k\<bar> < 1 / 2
           \<and> round64 (of_int k * i) = Fin b
           \<and> (b < 0) = (k < 0) \<and> \<bar>\<bar>b\<bar> * P - of_int \<bar>k\<bar>\<bar> < 1 / 2
           \<and> round64 (a * P) = Fin c \<and> \<bar>c - of_int k\<bar> < 1 / 20000"
proof -
  define K :: rat where "K = of_int \<bar>k\<bar>"
  have "1 \<le> \<bar>k\<bar>" using k(1) by simp
  then have "(of_int 1 :: rat) \<le> of_int \<bar>k\<bar>" by (simp only: of_int_le_iff)
  then have K1: "1 \<le> K" by (simp add: K_def)
  have "(of_int \<bar>k\<bar> :: rat) \<le> of_int (10 ^ 11)" using k(2) by (simp only: of_int_le_iff)
  then have Kb: "K \<le> 100000000000" by (simp add: K_def)
  from scaled_pos [OF K1 Kb P] obtain a i y b c where
    a: "round64 (K / P) = Fin a" "0 < a"
    and i: "round64 (1 / P) = Fin i" "0 < i"
    and y: "round64 (a / i) = Fin y" "\<bar>y - K\<bar> < 1 / 2"
    and b: "round64 (K * i) = Fin b" "0 < b" "\<bar>b * P - K\<bar> < 1 / 2"
    and c: "round64 (a * P) = Fin c" "\<bar>c - K\<bar> < 1 / 20000"
    by blast
  show ?thesis
  proof (cases "0 < k")
    case True
    then have Kk: "K = of_int k" by (simp add: K_def)
    have "\<bar>\<bar>b\<bar> * P - of_int \<bar>k\<bar>\<bar> < 1 / 2" using b(2,3) by (simp add: K_def)
    then show ?thesis
      using True a i y b(1,2) c unfolding Kk
      by (intro exI [of _ a] exI [of _ i] exI [of _ y] exI [of _ b] exI [of _ c]) simp
  next
    case False
    with k(1) have neg: "k < 0" by simp
    then have Kk: "of_int k = - K" by (simp add: K_def)
    have y0: "y \<noteq> 0" using y(2) K1 by linarith
    have c0: "c \<noteq> 0" using c(2) K1 by linarith
    have a0: "a \<noteq> 0" "b \<noteq> 0" using a(2) b(2) by simp_all
    have 1: "round64 (of_int k / P) = Fin (- a)"
      using round64_neg [OF a(1) a0(1)] by (simp add: Kk)
    have 2: "round64 (- a / i) = Fin (- y)"
      using round64_neg [OF y(1) y0] by simp
    have 3: "round64 (of_int k * i) = Fin (- b)"
      using round64_neg [OF b(1) a0(2)] by (simp add: Kk)
    have 4: "round64 (- a * P) = Fin (- c)"
      using round64_neg [OF c(1) c0] by simp
    have 5: "\<bar>- y - of_int k\<bar> < 1 / 2" "\<bar>- c - of_int k\<bar> < 1 / 20000"
      using y(2) c(2) unfolding Kk by linarith+
    have 6: "\<bar>\<bar>- b\<bar> * P - of_int \<bar>k\<bar>\<bar> < 1 / 2" using b(2,3) by (simp add: K_def)
    show ?thesis
      using neg a(2) b(2) i 1 2 3 4 5 6
      by (intro exI [of _ "- a"] exI [of _ i] exI [of _ "- y"] exI [of _ "- b"] exI [of _ "- c"]) simp
  qed
qed

lemma math_round_int: "k \<noteq> 0 \<Longrightarrow> math_round (Fin (of_int k)) = Fin (of_int k)"
proof -
  assume "k \<noteq> 0"
  moreover have "\<lfloor>of_int k + 1 / 2 :: rat\<rfloor> = k" by (intro floor_unique) simp_all
  ultimately show ?thesis by (simp add: math_round_def)
qed

text \<open>
  A number within \<open>0.00005\<close> of a non-zero integer is printed with four decimals as that
  integer and read back as it.
\<close>

lemma settle:
  assumes k: "k \<noteq> 0" "\<bar>k\<bar> \<le> 2 ^ 53" and c: "\<bar>c - of_int k\<bar> < 1 / 20000"
  shows "to_fixed 4 (Fin c) = Inr ((if k < 0 then ''-'' else []) @ fixed_digits 4 (nat \<bar>k\<bar> * 10 ^ 4))"
    and "to_number ((if k < 0 then ''-'' else []) @ fixed_digits 4 (nat \<bar>k\<bar> * 10 ^ 4)) = Fin (of_int k)"
proof -
  define K :: rat where "K = of_int k"
  have "1 \<le> \<bar>k\<bar>" using k(1) by simp
  then have "(of_int 1 :: rat) \<le> of_int \<bar>k\<bar>" by (simp only: of_int_le_iff)
  then have K1: "1 \<le> \<bar>K\<bar>" by (simp add: K_def)
  have Kb: "\<bar>K\<bar> \<le> 2 ^ 53"
  proof -
    have "(of_int \<bar>k\<bar> :: rat) \<le> of_int (2 ^ 53)" using k(2) by (simp only: of_int_le_iff)
    then show ?thesis by (simp add: K_def)
  qed
  have cK: "\<bar>c - K\<bar> < 1 / 20000" using c by (simp add: K_def)
  have sg: "(c < 0) = (k < 0)"
  proof -
    have "(c < 0) = (K < 0)" using cK K1 by linarith
    then show ?thesis by (simp add: K_def)
  qed
  have n: "(of_nat (nat \<bar>k\<bar> * 10 ^ 4) :: rat) = \<bar>K\<bar> * 10 ^ 4"
    by (simp add: K_def)
  have n0: "0 < nat \<bar>k\<bar> * 10 ^ 4" using k(1) by simp
  have "\<bar>c\<bar> < 2 ^ 53 + 1" using cK Kb by linarith
  also have "\<dots> < (10::rat) ^ 21" by simp
  finally have c21: "\<bar>c\<bar> < 10 ^ 21" .
  have "\<bar>\<bar>c\<bar> - \<bar>K\<bar>\<bar> < 1 / 20000" using cK by linarith
  then have "\<bar>(\<bar>c\<bar> - \<bar>K\<bar>) * 10 ^ 4\<bar> < 1 / 2" unfolding abs_mult by simp
  then have near: "\<bar>\<bar>c\<bar> * 10 ^ 4 - of_nat (nat \<bar>k\<bar> * 10 ^ 4)\<bar> < 1 / 2"
    unfolding n by (simp add: left_diff_distrib)
  have fd: "(4::nat) \<le> 100" by simp
  show "to_fixed 4 (Fin c) = Inr ((if k < 0 then ''-'' else []) @ fixed_digits 4 (nat \<bar>k\<bar> * 10 ^ 4))"
    using refix(1) [OF fd n0 c21 near] by (simp add: sg)
  have "(if k < 0 then - 1 else 1) * of_nat (nat \<bar>k\<bar> * 10 ^ 4) / 10 ^ 4 = (of_int k :: rat)"
    unfolding n K_def by simp
  moreover have "round64 (of_int k) = Fin (of_int k)" using k(2) by (rule round64_int)
  ultimately show "to_number ((if k < 0 then ''-'' else []) @ fixed_digits 4 (nat \<bar>k\<bar> * 10 ^ 4)) = Fin (of_int k)"
    using refix(2) [OF fd n0 c21 near] by (simp add: sg)
qed


lemma parse_Num_settle:
  assumes "precision st \<le> 22" and "js_mul (Fin x) (Fin (10 ^ precision st)) = Fin c"
    and "k \<noteq> 0" and "\<bar>k\<bar> \<le> 2 ^ 53" and "\<bar>c - of_int k\<bar> < 1 / 20000"
  shows "parse rx (Num (Fin x)) st True = Inr (Fin (of_int k))"
  using settle [OF assms(3-5)] assms(2,3)
  by (simp add: parse_def parse_scaled_def pow_exact [OF assms(1)] round'_def math_round_int)

lemma parse_zero:
  assumes "precision st \<le> 22"
  shows "parse rx (Num (Fin 0)) st True = Inr (Fin 0)"
proof -
  have m: "js_mul (Fin 0) (Fin (10 ^ precision st)) = Fin 0"
    by (simp add: js_mul_def is_nan_def is_inf_def is_zero_def sign_neg_def signed_zero_def)
  have t: "to_fixed 4 (Fin 0) = Inr ''0.0000''" "to_number ''0.0000'' = Fin 0"
    by (simp_all add: jsnum_eval string_eval cong: let_weak_cong)
  show ?thesis
    by (simp add: parse_def parse_scaled_def pow_exact [OF assms] m t round'_def math_round_def)
qed

text \<open>
  The number nearest to \<open>k / 10 ^ p\<close> is parsed with the precision \<open>p\<close> as the scaled
  integer \<open>k\<close>.
\<close>

lemma parse_amount:
  assumes "precision st \<le> 22" and "\<bar>k\<bar> \<le> 10 ^ 11"
  shows "parse rx (Num (round64 (of_int k / 10 ^ precision st))) st True = Inr (Fin (of_int k))"
proof (cases "k = 0")
  case True
  then show ?thesis using parse_zero [OF assms(1)] by (simp add: round64_def)
next
  case False
  note P = pow_bounds [OF assms(1)]
  from scaled_signed [OF False assms(2) P] obtain a c where
    a: "round64 (of_int k / 10 ^ precision st) = Fin a" "a \<noteq> 0"
    and c: "round64 (a * 10 ^ precision st) = Fin c" "\<bar>c - of_int k\<bar> < 1 / 20000"
    by blast
  have m: "js_mul (Fin a) (Fin (10 ^ precision st)) = Fin c" using a(2) c(1) by (simp add: js_mul_Fin)
  have "\<bar>k\<bar> \<le> 2 ^ 53" using assms(2) by simp
  from parse_Num_settle [OF assms(1) m False this c(2)] show ?thesis by (simp add: a(1))
qed

lemma parse_exact:
  assumes "precision st \<le> 22" and "x * 10 ^ precision st = of_int j" and "\<bar>j\<bar> \<le> 2 ^ 53"
  shows "parse rx (Num (Fin x)) st True = Inr (Fin (of_int j))"
proof (cases "j = 0")
  case True
  with assms(2) have "x = 0" by simp
  then show ?thesis using parse_zero [OF assms(1)] True by simp
next
  case False
  with assms(2) have x0: "x \<noteq> 0" by auto
  have "js_mul (Fin x) (Fin (10 ^ precision st)) = round64 (of_int j)"
    using x0 by (simp add: js_mul_Fin assms(2))
  then have m: "js_mul (Fin x) (Fin (10 ^ precision st)) = Fin (of_int j)"
    using round64_int [OF assms(3)] by simp
  have "\<bar>of_int j - of_int j :: rat\<bar> < 1 / 20000" by simp
  from parse_Num_settle [OF assms(1) m False assms(3) this] show ?thesis .
qed

lemma assign_as_opts: "assign defaults (Some (as_opts st)) = st"
  by (cases st) (simp add: assign_def as_opts_def defaults_def split: option.splits)

text \<open>The instance that the constructor builds from a scaled integer.\<close>

lemma Currency_parsed:
  assumes "parse rx v (assign defaults opts) True = Inr n"
  shows "Currency rx v opts = Inr
           \<lparr>intValue = Some n, value' = Some (js_div n (pow (precision (assign defaults opts)))),
            settings' = Some ((assign defaults opts)
              \<lparr>increment := (if truthy_opt (increment (assign defaults opts))
                              then increment (assign defaults opts)
                              else Some (js_div (Fin 1) (pow (precision (assign defaults opts))))),
               groups := (if useVedic (assign defaults opts) = Some True then Some VedicRegex
                          else Some GroupRegex)\<rparr>),
            precision' = Some (pow (precision (assign defaults opts)))\<rparr>"
  unfolding Currency_def Let_def assms by simp

lemma falsy_add:
  assumes "\<not> truthy_opt (intValue this)"
  shows "add rx this n = add_fallback rx this n" and "subtract rx this n = add_fallback rx this n"
  using assms by (auto simp: add_def subtract_def truthy_opt_def split: option.splits)

lemma js_div_zero: "b \<noteq> 0 \<Longrightarrow> js_div (Fin 0) (Fin b) = signed_zero (b < 0)"
  by (simp add: js_div_def is_nan_def is_inf_def is_zero_def sign_neg_def)

lemma js_div_half: "\<bar>k\<bar> < 2 ^ 53 \<Longrightarrow> js_div (Fin (of_int k)) (Fin 2) = Fin (of_int k / 2)"
proof (cases "k = 0")
  case True
  then show ?thesis by (simp add: js_div_zero signed_zero_def)
next
  case False
  assume "\<bar>k\<bar> < 2 ^ 53"
  then show ?thesis using False round64_half [of k] by (simp add: js_div_Fin)
qed

text \<open>
  What the second \<open>return\<close> of \<open>add\<close> constructs from the number nearest to \<open>k / 100\<close>, for
  settings with \<open>p\<close> decimals.
\<close>

lemma Currency_half:
  assumes p: "1 \<le> precision st" "precision st \<le> 22"
    and k: "5 * \<bar>k\<bar> * 10 ^ (precision st - 1) \<le> 2 ^ 53"
  shows "\<exists>r. Currency rx (Num (Fin (of_int k / 2))) (Some (as_opts st)) = Inr r
           \<and> intValue r = Some (Fin (of_int (5 * k * 10 ^ (precision st - 1))))
           \<and> value' r = Some (Fin (of_int k / 2))"
proof -
  define j where "j = 5 * k * 10 ^ (precision st - 1)"
  have pp: "(10::rat) ^ precision st = 10 * 10 ^ (precision st - 1)"
    using p(1) by (cases "precision st") simp_all
  have xj: "(of_int k / 2 :: rat) * 10 ^ precision st = of_int j"
    unfolding pp j_def by simp
  have "\<bar>j\<bar> = 5 * \<bar>k\<bar> * 10 ^ (precision st - 1)" by (simp add: j_def abs_mult)
  then have jb: "\<bar>j\<bar> \<le> 2 ^ 53" using k by simp
  have "(1::int) \<le> 10 ^ (precision st - 1)" by simp
  then have "(5 * \<bar>k\<bar>) * 1 \<le> (5 * \<bar>k\<bar>) * 10 ^ (precision st - 1)"
    by (intro mult_left_mono) simp_all
  then have "5 * \<bar>k\<bar> \<le> 9007199254740992" using k by simp
  then have kb: "\<bar>k\<bar> < 2 ^ 53 \<or> k = 0" by simp
  have q: "parse rx (Num (Fin (of_int k / 2))) st True = Inr (Fin (of_int j))"
    using p(2) xj jb by (rule parse_exact)
  have v: "js_div (Fin (of_int j)) (Fin (10 ^ precision st)) = Fin (of_int k / 2)"
  proof (cases "k = 0")
    case True
    then show ?thesis by (simp add: j_def js_div_zero signed_zero_def)
  next
    case False
    then have j0: "(of_int j :: rat) \<noteq> 0" by (simp add: j_def)
    have e: "(of_int j :: rat) / 10 ^ precision st = of_int k / 2"
      using xj [symmetric] by simp
    have "round64 (of_int k / 2) = Fin (of_int k / 2)"
      using kb False by (intro round64_half) simp
    then have "round64 (of_int j / 10 ^ precision st) = Fin (of_int k / 2)"
      unfolding e .
    then show ?thesis using j0 by (simp add: js_div_Fin)
  qed
  define r where "r = \<lparr>intValue = Some (Fin (of_int j)),
    value' = Some (js_div (Fin (of_int j)) (pow (precision st))),
    settings' = Some (st
      \<lparr>increment := (if truthy_opt (increment st) then increment st
                      else Some (js_div (Fin 1) (pow (precision st)))),
       groups := (if useVedic st = Some True then Some VedicRegex else Some GroupRegex)\<rparr>),
    precision' = Some (pow (precision st))\<rparr>"
  have c: "Currency rx (Num (Fin (of_int k / 2))) (Some (as_opts st)) = Inr r"
    using Currency_parsed [of rx _ "Some (as_opts st)", unfolded assign_as_opts, OF q]
    unfolding r_def .
  have 1: "intValue r = Some (Fin (of_int j))" by (simp add: r_def)
  have 2: "value' r = Some (Fin (of_int k / 2))"
    unfolding r_def pow_exact [OF p(2)] v by simp
  show ?thesis using c 1 2 unfolding j_def by blast
qed

lemma Currency_no_opts: "Currency rx v None = Currency rx v (Some (as_opts defaults))"
  unfolding Currency_def assign_as_opts by (simp add: assign_def)

section \<open>Formatting amounts\<close>

lemma substitution_plain: "CHR ''$'' \<notin> set r \<Longrightarrow> substitution m b a caps r = r"
  by (induction m b a caps r rule: substitution.induct) auto

lemma substitution_ref:
  assumes "CHR ''$'' \<notin> set sep"
  shows "substitution m b a [c1, c2] (''$1'' @ sep) = c1 @ sep"
proof (cases sep)
  case Nil
  then show ?thesis by (simp add: group_ref_def digit_val_def is_digit_def)
next
  case (Cons e r)
  have "substitution m b a [c1, c2] sep = sep" using assms by (rule substitution_plain)
  then show ?thesis using Cons by (simp add: group_ref_def digit_val_def is_digit_def)
qed

lemma group_digits_plain:
  assumes "CHR ''$'' \<notin> set sep"
  shows "group_digits re sep pre (c # cs)
           = (if is_digit c \<and> lookahead re cs then c # sep else [c])
             @ group_digits re sep (pre @ [c]) cs"
  using substitution_ref [OF assms, of "[c]" pre cs "[c]" "last_group re cs"] by simp

lemma filter_group_digits:
  assumes "CHR ''$'' \<notin> set sep" and "\<forall>c \<in> set sep. \<not> P c"
  shows "filter P (group_digits re sep pre s) = filter P s"
proof (induction s arbitrary: pre)
  case Nil
  show ?case by simp
next
  case (Cons c cs)
  show ?case
    unfolding group_digits_plain [OF assms(1)] using assms(2) Cons [of "pre @ [c]"]
    by (simp add: filter_empty_conv)
qed

lemma set_group_digits:
  assumes "CHR ''$'' \<notin> set sep"
  shows "set (group_digits re sep pre s) \<subseteq> set s \<union> set sep"
proof (induction s arbitrary: pre)
  case Nil
  show ?case by simp
next
  case (Cons c cs)
  show ?case
    unfolding group_digits_plain [OF assms] using Cons [of "pre @ [c]"] by auto
qed

lemma replace_first_at:
  assumes "c \<notin> set pre" and "CHR ''$'' \<notin> set r"
  shows "replace_first c r (pre @ c # post) = pre @ r @ post"
proof -
  have t: "takeWhile (\<lambda>d. d \<noteq> c) (pre @ c # post) = pre"
    using assms(1) by (induction pre) auto
  have d: "dropWhile (\<lambda>d. d \<noteq> c) (pre @ c # post) = c # post"
    using assms(1) by (induction pre) auto
  show ?thesis
    unfolding replace_first_def Let_def t d by (simp add: substitution_plain [OF assms(2)])
qed

lemma class_sub_remove: "class_sub P pre s [] = filter (\<lambda>c. \<not> P c) s"
  by (induction s arbitrary: pre) simp_all

lemma class_sub_point: "class_sub P pre s ''.'' = map (\<lambda>c. if P c then CHR ''.'' else c) s"
  by (induction s arbitrary: pre) simp_all

lemma math_round_near:
  assumes "k \<noteq> 0" and "\<bar>y - of_int k\<bar> < 1 / 2"
  shows "math_round (Fin y) = Fin (of_int k)"
proof -
  have "of_int k \<le> y + 1 / 2" "y + 1 / 2 < of_int k + 1" using assms(2) by linarith+
  then have "\<lfloor>y + 1 / 2\<rfloor> = k" by (intro floor_unique)
  then show ?thesis using assms(1) by (simp add: math_round_def)
qed

lemma of_int_bounds:
  assumes "k \<noteq> 0" and "\<bar>k\<bar> \<le> 10 ^ 11"
  shows "(of_nat (nat \<bar>k\<bar>) :: rat) = of_int \<bar>k\<bar>" and "0 < nat \<bar>k\<bar>"
    and "(of_int \<bar>k\<bar> :: rat) \<le> 100000000000" and "(of_int k :: rat) \<noteq> 0"
proof -
  show "(of_nat (nat \<bar>k\<bar>) :: rat) = of_int \<bar>k\<bar>" by simp
  show "0 < nat \<bar>k\<bar>" using assms(1) by simp
  have "(of_int \<bar>k\<bar> :: rat) \<le> of_int (10 ^ 11)" using assms(2) by (simp only: of_int_le_iff)
  then show "(of_int \<bar>k\<bar> :: rat) \<le> 100000000000" by simp
  show "(of_int k :: rat) \<noteq> 0" using assms(1) by simp
qed

text \<open>
  The string of an amount with \<open>p\<close> decimals and the increment \<open>1 / 10 ^ p\<close> that the
  constructor sets.
\<close>

lemma toString_amount:
  assumes k: "k \<noteq> 0" "\<bar>k\<bar> \<le> 10 ^ 11" and p: "precision st \<le> 22"
    and x: "intValue x = Some (Fin (of_int k))" "settings' x = Some st"
      "precision' x = Some (Fin (10 ^ precision st))"
      "increment st = Some (js_div (Fin 1) (Fin (10 ^ precision st)))"
  shows "toString x
           = Inr (Some ((if k < 0 then ''-'' else []) @ fixed_digits (precision st) (nat \<bar>k\<bar>)))"
proof -
  note kb = of_int_bounds [OF k]
  note P = pow_bounds [OF p]
  define P :: rat where "P = 10 ^ precision st"
  have P1: "1 \<le> P" "P \<le> 10000000000000000000000" "P \<noteq> 0"
    using P unfolding P_def by simp_all
  from scaled_signed [OF k P1(1,2)] obtain a i y b where
    a: "round64 (of_int k / P) = Fin a" "a \<noteq> 0"
    and i: "round64 (1 / P) = Fin i" "0 < i"
    and y: "round64 (a / i) = Fin y" "\<bar>y - of_int k\<bar> < 1 / 2"
    and b: "round64 (of_int k * i) = Fin b" "(b < 0) = (k < 0)"
      "\<bar>\<bar>b\<bar> * P - of_int \<bar>k\<bar>\<bar> < 1 / 2"
    by blast
  have inc: "increment st = Some (Fin i)"
    using P1(3) i(1) unfolding x(4) P_def [symmetric] by (simp add: js_div_Fin)
  have t: "truthy (Fin (of_int k))" "truthy (Fin P)" "truthy_opt (Some (Fin i))"
    using k(1) P1(3) i(2) by (simp_all add: truthy_def truthy_opt_def is_zero_def is_nan_def)
  have i0: "i \<noteq> 0" using i(2) by simp
  have 1: "js_div (Fin (of_int k)) (Fin P) = Fin a" using kb(4) P1(3) a(1) by (simp add: js_div_Fin)
  have 2: "js_div (Fin a) (Fin i) = Fin y" using a(2) i0 y(1) by (simp add: js_div_Fin)
  have 3: "round' (Fin y) = Fin (of_int k)"
    unfolding round'_def using k(1) y(2) by (rule math_round_near)
  have 4: "js_mul (Fin (of_int k)) (Fin i) = Fin b" using kb(4) i0 b(1) by (simp add: js_mul_Fin)
  have r: "rounding (js_div (Fin (of_int k)) (Fin P)) (number_of (Some (Fin i))) = Fin b"
    by (simp add: rounding_def number_of_def 1 2 3 4)
  have "\<bar>b\<bar> * 1 \<le> \<bar>b\<bar> * P" using P1(1) by (intro mult_left_mono) simp_all
  moreover have "\<bar>b\<bar> * P < 100000000001" using b(3) kb(3) by linarith
  ultimately have "\<bar>b\<bar> < 1000000000000000000000" by linarith
  then have b21: "\<bar>b\<bar> < 10 ^ 21" by simp
  have near: "\<bar>\<bar>b\<bar> * 10 ^ precision st - of_nat (nat \<bar>k\<bar>)\<bar> < 1 / 2"
    using b(3) unfolding P_def by (simp add: kb(1))
  have fd: "precision st \<le> 100" using p by simp
  have tf: "to_fixed (precision st) (Fin b)
      = Inr ((if k < 0 then ''-'' else []) @ fixed_digits (precision st) (nat \<bar>k\<bar>))"
    using refix(1) [OF fd kb(2) b21 near] by (simp add: b(2))
  show ?thesis
    using t unfolding toString_def x(1,2,3) P_def [symmetric] by (simp add: inc r tf)
qed

lemma fixed_digits_head: "\<exists>c cs. fixed_digits p n = c # cs \<and> is_digit c"
proof (cases "p = 0")
  case True
  then have "fixed_digits p n = digits_of n" by (simp add: fixed_digits_def)
  then show ?thesis using digits_of_nonempty [of n] digits_of_digits [of n]
    by (cases "digits_of n") simp_all
next
  case False
  then have "0 < p" by simp
  from fixed_digits_shape [OF this, of n] obtain ip fp where
    "fixed_digits p n = ip @ CHR ''.'' # fp" "ip \<noteq> []" "list_all is_digit ip"
    by blast
  then show ?thesis by (cases ip) simp_all
qed

lemma takeWhile_not_dot:
  assumes "list_all is_digit ds"
  shows "takeWhile (\<lambda>d. d \<noteq> CHR ''.'') (ds @ CHR ''.'' # r) = ds"
    and "dropWhile (\<lambda>d. d \<noteq> CHR ''.'') (ds @ CHR ''.'' # r) = CHR ''.'' # r"
    and "takeWhile (\<lambda>d. d \<noteq> CHR ''.'') ds = ds"
    and "dropWhile (\<lambda>d. d \<noteq> CHR ''.'') ds = []"
  using assms by (induction ds) (auto dest: digit_not_special(1))

text \<open>
  The amount as \<open>format\<close> writes it into the pattern: the digits before the point in
  groups, and the decimal separator and the digits after the point when there are any.
  \<open>parse\<close> keeps the digits and the decimal separator of it.
\<close>

lemma amount_kept:
  assumes sep: "CHR ''$'' \<notin> set sep" "CHR ''('' \<notin> set sep"
      "\<forall>c \<in> set sep. \<not> (c = CHR ''-'' \<or> is_digit c \<or> c = d)"
    and d: "\<not> is_digit d" "d \<noteq> CHR ''-''" "d \<noteq> CHR ''$''" "d \<noteq> CHR ''(''"
  shows "\<exists>body.
      group_digits re sep [] (fst (split_on CHR ''.'' (fixed_digits p n)))
        @ (case snd (split_on CHR ''.'' (fixed_digits p n)) of None \<Rightarrow> []
           | Some c \<Rightarrow> if c = [] then [] else d # c) = body
      \<and> CHR ''$'' \<notin> set body \<and> CHR ''('' \<notin> set body
      \<and> map (\<lambda>c. if c = d then CHR ''.'' else c)
          (filter (\<lambda>c. c = CHR ''-'' \<or> is_digit c \<or> c = d) body) = fixed_digits p n"
proof -
  let ?keep = "\<lambda>c. c = CHR ''-'' \<or> is_digit c \<or> c = d"
  let ?point = "\<lambda>c. if c = d then CHR ''.'' else c"
  have dg: "c \<noteq> CHR ''$'' \<and> c \<noteq> CHR ''('' \<and> c \<noteq> d" if "is_digit c" for c
    using that d(1) by (auto simp: is_digit_def)
  have grp: "CHR ''$'' \<notin> set (group_digits re sep [] ip)"
    "CHR ''('' \<notin> set (group_digits re sep [] ip)"
    "map ?point (filter ?keep (group_digits re sep [] ip)) = ip"
    if ip: "list_all is_digit ip" for ip
  proof -
    have s: "set (group_digits re sep [] ip) \<subseteq> set ip \<union> set sep"
      using sep(1) by (rule set_group_digits)
    show "CHR ''$'' \<notin> set (group_digits re sep [] ip)"
      "CHR ''('' \<notin> set (group_digits re sep [] ip)"
      using s sep(1,2) ip dg by (auto simp: list_all_iff)
    have "filter ?keep (group_digits re sep [] ip) = filter ?keep ip"
      using sep(1,3) by (rule filter_group_digits)
    also have "\<dots> = ip" using ip by (simp add: list_all_iff filter_id_conv)
    finally have "filter ?keep (group_digits re sep [] ip) = ip" .
    moreover have "map ?point ip = ip" using ip dg by (simp add: list_all_iff map_idI)
    ultimately show "map ?point (filter ?keep (group_digits re sep [] ip)) = ip" by simp
  qed
  show ?thesis
  proof (cases "p = 0")
    case True
    have f: "fixed_digits p n = digits_of n" using True by (simp add: fixed_digits_def)
    have ip: "list_all is_digit (digits_of n)" by (rule digits_of_digits)
    have sp: "split_on CHR ''.'' (digits_of n) = (digits_of n, None)"
      using takeWhile_not_dot(3,4) [OF ip] by (simp add: split_on_def)
    show ?thesis unfolding f sp using grp [OF ip] by simp
  next
    case False
    then have "0 < p" by simp
    from fixed_digits_shape [OF this, of n] obtain ip fp where
      fx: "fixed_digits p n = ip @ CHR ''.'' # fp" and ip: "ip \<noteq> []" "list_all is_digit ip"
      and fp: "list_all is_digit fp" "length fp = p"
      by blast
    have sp: "split_on CHR ''.'' (ip @ CHR ''.'' # fp) = (ip, Some fp)"
      using takeWhile_not_dot(1,2) [OF ip(2), of fp] takeWhile_not_dot(3) [OF fp(1)]
      by (simp add: split_on_def)
    have fpne: "fp \<noteq> []" using fp(2) False by auto
    have ff: "filter ?keep fp = fp" "map ?point fp = fp"
      "CHR ''$'' \<notin> set fp" "CHR ''('' \<notin> set fp"
      using fp(1) dg by (auto simp: list_all_iff filter_id_conv map_idI)
    show ?thesis unfolding fx sp using grp [OF ip(2)] fpne ff d by simp
  qed
qed

text \<open>
  The formatted string of an amount, and what \<open>parse\<close> keeps of it. The pattern with the
  symbol in place is \<open>pre\<close>, the mark \<open>#\<close> and \<open>post\<close>.
\<close>

lemma format_amount:
  assumes k: "k \<noteq> 0" "\<bar>k\<bar> \<le> 10 ^ 11" and p: "precision st \<le> 22"
    and x: "intValue x = Some (Fin (of_int k))" "settings' x = Some st"
      "precision' x = Some (Fin (10 ^ precision st))"
      "increment st = Some (js_div (Fin 1) (Fin (10 ^ precision st)))"
      "value' x = Some (js_div (Fin (of_int k)) (Fin (10 ^ precision st)))"
      "groups st = Some re"
    and dec: "decimal st = [d]" "\<not> is_digit d" "d \<noteq> CHR ''-''" "d \<noteq> CHR ''$''" "d \<noteq> CHR ''(''"
    and sep: "CHR ''$'' \<notin> set (separator st)" "CHR ''('' \<notin> set (separator st)"
      "\<forall>c \<in> set (separator st). \<not> (c = CHR ''-'' \<or> is_digit c \<or> c = d)"
    and frame: "replace_first CHR ''!''
        (if (case useSymbol of None \<Rightarrow> formatWithSymbol st | Some u \<Rightarrow> u) then symbol st else [])
        (if k < 0 then negativePattern st else pattern st) = pre @ CHR ''#'' # post"
      "CHR ''#'' \<notin> set pre" "CHR ''('' \<notin> set pre" "CHR ''('' \<notin> set post"
      "filter (\<lambda>c. c = CHR ''-'' \<or> is_digit c \<or> c = d) pre = (if k < 0 then ''-'' else [])"
      "filter (\<lambda>c. c = CHR ''-'' \<or> is_digit c \<or> c = d) post = []"
  shows "\<exists>s. format x useSymbol = Inr (Some s) \<and> CHR ''('' \<notin> set s
           \<and> map (\<lambda>c. if c = d then CHR ''.'' else c)
               (filter (\<lambda>c. c = CHR ''-'' \<or> is_digit c \<or> c = d) s)
             = (if k < 0 then ''-'' else []) @ fixed_digits (precision st) (nat \<bar>k\<bar>)"
proof -
  note kb = of_int_bounds [OF k]
  note P = pow_bounds [OF p]
  define n where "n = nat \<bar>k\<bar>"
  define fx where "fx = fixed_digits (precision st) n"
  from scaled_signed [OF k P] obtain a where
    a: "round64 (of_int k / 10 ^ precision st) = Fin a" "a \<noteq> 0" "(a < 0) = (k < 0)"
    by blast
  have v: "value' x = Some (Fin a)" using kb(4) a(1) by (simp add: x(5) js_div_Fin)
  have ta: "truthy (Fin a)" using a(2) by (simp add: truthy_def is_zero_def is_nan_def)
  have ge: "js_ge (Fin a) (Fin 0) = (\<not> k < 0)"
    using a(2,3) by (auto simp: js_ge_def is_nan_def rat_of_def)
  have ts: "toString x = Inr (Some ((if k < 0 then ''-'' else []) @ fx))"
    unfolding fx_def n_def using k p x(1-4) by (rule toString_amount)
  from fixed_digits_head [of "precision st" n] obtain c cs where
    hd: "fx = c # cs" "is_digit c"
    unfolding fx_def by blast
  have "c \<noteq> CHR ''-''" using hd(2) by (rule digit_not_special(2))
  then have strip: "(case (if k < 0 then ''-'' else []) @ fx of [] \<Rightarrow> []
      | c # cs \<Rightarrow> if c = CHR ''-'' then cs else (if k < 0 then ''-'' else []) @ fx) = fx"
    unfolding hd(1) by simp
  from amount_kept [OF sep dec(2-5), of re "precision st" n] obtain body where
    body: "group_digits re (separator st) [] (fst (split_on CHR ''.'' fx))
        @ (case snd (split_on CHR ''.'' fx) of None \<Rightarrow> []
           | Some c \<Rightarrow> if c = [] then [] else d # c) = body"
    and b: "CHR ''$'' \<notin> set body" "CHR ''('' \<notin> set body"
      "map (\<lambda>c. if c = d then CHR ''.'' else c)
         (filter (\<lambda>c. c = CHR ''-'' \<or> is_digit c \<or> c = d) body) = fx"
    unfolding fx_def by blast
  have body': "group_digits re (separator st) [] (fst (split_on CHR ''.'' fx))
        @ (case snd (split_on CHR ''.'' fx) of None \<Rightarrow> []
           | Some c \<Rightarrow> if c = [] then [] else decimal st @ c) = body"
    unfolding dec(1) append_Cons append_Nil by (rule body)
  define F where "F = replace_first CHR ''!''
        (if (case useSymbol of None \<Rightarrow> formatWithSymbol st | Some u \<Rightarrow> u) then symbol st else [])
        (if k < 0 then negativePattern st else pattern st)"
  have F: "F = pre @ CHR ''#'' # post" unfolding F_def by (rule frame(1))
  have f: "format x useSymbol = Inr (Some (replace_first CHR ''#'' body F))"
    unfolding format_def x(2) ts option.case sum.case Let_def strip v x(6) prod.case
    using ta by (simp add: ge body' F_def)
  have s: "replace_first CHR ''#'' body F = pre @ body @ post"
    unfolding F using frame(2) b(1) by (rule replace_first_at)
  have sg: "map (\<lambda>c. if c = d then CHR ''.'' else c) (if k < 0 then ''-'' else [])
      = (if k < 0 then ''-'' else [])"
    using dec(3) by simp
  have 1: "CHR ''('' \<notin> set (pre @ body @ post)" using frame(3,4) b(2) by simp
  have 2: "map (\<lambda>c. if c = d then CHR ''.'' else c)
      (filter (\<lambda>c. c = CHR ''-'' \<or> is_digit c \<or> c = d) (pre @ body @ post))
      = (if k < 0 then ''-'' else []) @ fx"
    unfolding filter_append map_append frame(5,6) b(3) sg by simp
  show ?thesis using f 1 2 unfolding s fx_def n_def by blast
qed

lemma paren_negative_id: "CHR ''('' \<notin> set s \<Longrightarrow> paren_negative s = s"
  by (induction s) (auto simp: Let_def)

section \<open>The claims\<close>

lemmas eval = jsnum_eval string_eval currency_eval

text \<open>
  C3 as the specification states it: constructing from the number \<open>-500\<close> with precision 2
  yields \<open>dollars()\<close> equal to \<open>-5\<close> and \<open>cents()\<close> equal to \<open>0\<close>. The constructor scales the
  number by \<open>10 ^ 2\<close>, so the value is \<open>-500\<close> and \<open>dollars()\<close> is not \<open>-5\<close>.
\<close>

theorem C3_dollars_not_minus_5:
  "map_sum id dollars (Currency RegExp (Num (Fin (- 500))) (Some (no_opts\<lparr>p_precision := Some 2\<rparr>)))
     \<noteq> Inr (Some (Fin (- 5)))"
  by (simp add: eval cong: let_weak_cong)

text \<open>
  C3, amended: constructing from the number \<open>-500\<close> with precision 2 yields the scaled
  integer \<open>-50000\<close>, \<open>dollars()\<close> equal to \<open>-500\<close> and \<open>cents()\<close> equal to \<open>0\<close>.
\<close>

theorem C3_dollars_cents:
  "map_sum id (\<lambda>c. (intValue c, dollars c, cents c))
     (Currency rx (Num (Fin (- 500))) (Some (no_opts\<lparr>p_precision := Some 2\<rparr>)))
   = Inr (Some (Fin (- 50000)), Some (Fin (- 500)), Some (Fin 0))"
  by (simp add: eval cong: let_weak_cong)

text \<open>
  C10: the literal \<open>1.005\<close> is the binary64 number nearest to \<open>201 / 200\<close>. Constructed
  with the default configuration its scaled integer is \<open>101\<close>. The product with \<open>100\<close> is a
  number below \<open>100.5\<close>, which \<open>round\<close> alone takes to \<open>100\<close>; \<open>toFixed(4)\<close> prints it as
  \<open>100.5000\<close>, which reads back as \<open>100.5\<close>.
\<close>

theorem C10_scaled_integer_101:
  "map_sum id intValue (Currency rx (Num (round64 (201 / 200))) None) = Inr (Some (Fin 101))
   \<and> js_mul (round64 (201 / 200)) (pow 2) = Fin (7072058789855231 / 70368744177664)
   \<and> round' (js_mul (round64 (201 / 200)) (pow 2)) = Fin 100
   \<and> to_fixed 4 (js_mul (round64 (201 / 200)) (pow 2)) = Inr ''100.5000''
   \<and> to_number ''100.5000'' = Fin (201 / 2)"
  by (simp add: eval cong: let_weak_cong)

text \<open>
  C5: when the scaled integer of the receiver is falsy (zero, NaN or unset), \<open>multiply\<close>,
  \<open>divide\<close> and \<open>distribute\<close> return \<open>undefined\<close>.
\<close>

theorem C5_falsy_receiver:
  "\<not> truthy_opt (intValue this) \<Longrightarrow>
     multiply rx this n = Inr None \<and> divide' rx this x = Inr None
     \<and> distribute rx this cnt = Some (Inr None)"
  by (auto simp: multiply_def divide'_def distribute_def truthy_opt_def split: option.splits)

theorem C5_falsy_receiver_witness:
  "\<not> truthy_opt (intValue \<lparr>intValue = Some (Fin 0), value' = Some (Fin 0),
        settings' = Some defaults, precision' = Some (Fin 100)\<rparr>)
   \<and> multiply RegExp \<lparr>intValue = Some (Fin 0), value' = Some (Fin 0),
        settings' = Some defaults, precision' = Some (Fin 100)\<rparr> (Fin 3) = Inr None
   \<and> divide' RegExp \<lparr>intValue = Some (Fin 0), value' = Some (Fin 0),
        settings' = Some defaults, precision' = Some (Fin 100)\<rparr> (Num (Fin 3)) = Inr None
   \<and> distribute RegExp \<lparr>intValue = Some (Fin 0), value' = Some (Fin 0),
        settings' = Some defaults, precision' = Some (Fin 100)\<rparr> (Fin 3) = Some (Inr None)"
proof -
  have h: "\<not> truthy_opt (intValue \<lparr>intValue = Some (Fin 0), value' = Some (Fin 0),
        settings' = Some defaults, precision' = Some (Fin 100)\<rparr>)"
    by (simp add: truthy_opt_def truthy_def is_zero_def)
  show ?thesis
    using h C5_falsy_receiver [OF h, of RegExp "Fin 3" "Num (Fin 3)" "Fin 3"] by simp
qed

text \<open>
  C1 (distribution conservation) at the amount \<open>0.01\<close>, whose scaled integer is \<open>1\<close>,
  distributed over two shares: each share starts at \<open>0\<close>, and the penny is added with
  \<open>add\<close> to a receiver whose scaled integer is \<open>0\<close>, which takes the second \<open>return\<close> of
  \<open>add\<close>. The shares have the scaled integers \<open>50\<close> and \<open>0\<close>, whose sum is not \<open>1\<close>.
\<close>

theorem C1_distribute_one_cent:
  "(case Currency rx (Num (round64 (1 / 100))) None of Inl e \<Rightarrow> None
    | Inr x \<Rightarrow> map_option (map_sum id (map_option (\<lambda>d. (intValue x, map intValue d))))
               (distribute rx x (Fin 2)))
   = Some (Inr (Some (Some (Fin 1), [Some (Fin 50), Some (Fin 0)])))"
  by (simp add: eval distribute_loop.simps cong: let_weak_cong)

text \<open>
  C2 (additivity) at \<open>a = 0\<close> and \<open>b = 1\<close>, both constructed with the default configuration:
  \<open>a.add(b)\<close> has the value \<open>50\<close>, not \<open>1\<close>.
\<close>

theorem C2_add_to_zero:
  "(case (Currency rx (Num (Fin 0)) None, Currency rx (Num (Fin 1)) None) of
      (Inr a, Inr b) \<Rightarrow> map_sum id (\<lambda>c. (value' a, value' b, value' c)) (add rx a (Cur b))
    | _ \<Rightarrow> Inl InvalidInput)
   = Inr (Some (Fin 0), Some (Fin 1), Some (Fin 50))"
  by (simp add: eval cong: let_weak_cong)

text \<open>
  C4 as the specification states it, at the number \<open>-2.5\<close> with precision 0: the scaled value
  is \<open>-2.5\<close>, which the rule of the specification takes to \<open>-3\<close>. \<open>parse\<close> returns \<open>-2\<close>.
\<close>

theorem C4_negative_tie:
  "parse RegExp (Num (Fin (- 5 / 2))) (defaults\<lparr>precision := 0\<rparr>) True = Inr (Fin (- 2))
   \<and> parse_scaled RegExp (Num (Fin (- 5 / 2))) (defaults\<lparr>precision := 0\<rparr>) = Inr (Fin (- 5 / 2))
   \<and> half_away (round4 (- 5 / 2)) = - 3"
  by (simp add: eval round4_def half_away_def cong: let_weak_cong)


text \<open>
  C9 (round trip) at the amount \<open>1.02\<close> with the increment \<open>0.05\<close>: \<open>format()\<close> gives
  \<open>1.00\<close>, and parsing it under the same settings gives the value \<open>1\<close>, not \<open>1.02\<close>.
\<close>

theorem C9_increment_loses_cents:
  "(case Currency RegExp (Num (round64 (51 / 50))) (Some (no_opts\<lparr>p_increment := Some (round64 (1 / 20))\<rparr>)) of
      Inl e \<Rightarrow> None
    | Inr x \<Rightarrow>
       (case format x None of
          Inr (Some s) \<Rightarrow>
            (case Currency RegExp (Str s) (map_option as_opts (settings' x)) of
               Inr y \<Rightarrow> Some (intValue x, s, intValue y, value' y = value' x)
             | Inl e \<Rightarrow> None)
        | _ \<Rightarrow> None))
   = Some (Some (Fin 102), ''1.00'', Some (Fin 100), False)"
  by (simp add: eval cong: let_weak_cong)

lemma round4_nat:
  "round4 x = (if x < 0 then - 1 else 1) * of_nat (nat \<lfloor>\<bar>x\<bar> * 10 ^ 4 + 1 / 2\<rfloor>) / 10 ^ 4"
proof -
  have "0 \<le> \<lfloor>\<bar>x\<bar> * 10 ^ 4 + 1 / 2\<rfloor>" by simp
  then have "(of_int \<lfloor>\<bar>x\<bar> * 10 ^ 4 + 1 / 2\<rfloor> :: rat) = of_nat (nat \<lfloor>\<bar>x\<bar> * 10 ^ 4 + 1 / 2\<rfloor>)"
    by simp
  then show ?thesis unfolding round4_def by simp
qed

text \<open>
  C4, amended: when the scaled value \<open>x\<close> is finite and below \<open>10 ^ 21\<close> in magnitude, \<open>parse\<close>
  with rounding takes \<open>x\<close> to four decimals (a tie away from zero), takes the binary64
  number nearest to that, and rounds it with \<open>Math.round\<close>, where a tie goes to the larger
  integer: upward for a positive value and toward zero for a negative one.
\<close>

theorem C4_parse_rounding:
  assumes "parse_scaled rx v opts = Inr (Fin x)" and "\<bar>x\<bar> < 10 ^ 21"
  shows "parse rx v opts True
           = Inr (math_round (if round4 x = 0 then signed_zero (x < 0) else round64 (round4 x)))
         \<and> \<bar>round4 x - x\<bar> \<le> 1 / 20000
         \<and> math_round (Fin (of_int n + 1 / 2)) = (if n = - 1 then NegZero else Fin (of_int (n + 1)))"
proof -
  define m where "m = nat \<lfloor>\<bar>x\<bar> * 10 ^ 4 + 1 / 2\<rfloor>"
  have r4: "round4 x = (if x < 0 then - 1 else 1) * of_nat m / 10 ^ 4"
    unfolding m_def by (rule round4_nat)
  have z: "(round4 x = 0) = (m = 0)" unfolding r4 by simp
  have tf: "to_fixed 4 (Fin x) = Inr ((if x < 0 then ''-'' else []) @ fixed_digits 4 m)"
    using to_fixed_Fin [of 4 x] assms(2) by (simp add: m_def)
  have 1: "parse rx v opts True
      = Inr (math_round (if round4 x = 0 then signed_zero (x < 0) else round64 (round4 x)))"
    unfolding parse_def assms(1) z r4 by (simp add: tf to_number_fixed round'_def)
  define f :: rat where "f = of_int \<lfloor>\<bar>x\<bar> * 10 ^ 4 + 1 / 2\<rfloor>"
  have fb: "f \<le> \<bar>x\<bar> * 10000 + 1 / 2" "\<bar>x\<bar> * 10000 + 1 / 2 < f + 1"
    unfolding f_def by (simp_all, linarith+)
  have 2: "\<bar>round4 x - x\<bar> \<le> 1 / 20000"
  proof (cases "x < 0")
    case True
    then have e: "round4 x - x = - (f + 10000 * x) / 10000" by (simp add: round4_def f_def field_simps)
    have "- (1 / 2) \<le> f + 10000 * x" "f + 10000 * x \<le> 1 / 2" using fb True by linarith+
    then have "\<bar>f + 10000 * x\<bar> \<le> 1 / 2" by linarith
    then have "\<bar>- (f + 10000 * x) / 10000\<bar> \<le> 1 / 20000"
      unfolding abs_divide abs_minus_cancel by simp
    then show ?thesis unfolding e .
  next
    case False
    then have e: "round4 x - x = (f - 10000 * x) / 10000" by (simp add: round4_def f_def field_simps)
    have "- (1 / 2) \<le> f - 10000 * x" "f - 10000 * x \<le> 1 / 2" using fb False by linarith+
    then have "\<bar>f - 10000 * x\<bar> \<le> 1 / 2" by linarith
    then show ?thesis unfolding e by simp
  qed
  have "\<lfloor>of_int n + 1 / 2 + 1 / 2 :: rat\<rfloor> = n + 1" by (simp add: add.assoc)
  then have 3: "math_round (Fin (of_int n + 1 / 2)) = (if n = - 1 then NegZero else Fin (of_int (n + 1)))"
    unfolding math_round_def Let_def jsnum.case
    by (auto simp: add.assoc) 
  from 1 2 3 show ?thesis by simp
qed

theorem C4_parse_rounding_witness:
  "parse_scaled RegExp (Num (Fin (- 5 / 2))) (defaults\<lparr>precision := 0\<rparr>) = Inr (Fin (- 5 / 2))
   \<and> \<bar>- 5 / 2 :: rat\<bar> < 10 ^ 21
   \<and> parse RegExp (Num (Fin (- 5 / 2))) (defaults\<lparr>precision := 0\<rparr>) True = Inr (Fin (- 2))
   \<and> parse RegExp (Num (Fin (5 / 2))) (defaults\<lparr>precision := 0\<rparr>) True = Inr (Fin 3)
   \<and> math_round (Fin (of_int (- 3) + 1 / 2)) = Fin (of_int (- 3 + 1))"
proof -
  have h1: "parse_scaled RegExp (Num (Fin (- 5 / 2))) (defaults\<lparr>precision := 0\<rparr>) = Inr (Fin (- 5 / 2))"
    by (simp add: eval cong: let_weak_cong)
  have h2: "\<bar>- 5 / 2 :: rat\<bar> < 10 ^ 21" by simp
  have h3: "parse_scaled RegExp (Num (Fin (5 / 2))) (defaults\<lparr>precision := 0\<rparr>) = Inr (Fin (5 / 2))"
    by (simp add: eval cong: let_weak_cong)
  have h4: "\<bar>5 / 2 :: rat\<bar> < 10 ^ 21" by simp
  have r: "round4 (- (5 / 2)) = - (5 / 2)" "round4 (5 / 2) = 5 / 2" by (simp_all add: round4_def)
  have e: "math_round (round64 (- (5 / 2))) = Fin (- 2)" "math_round (round64 (5 / 2)) = Fin 3"
    by (simp_all add: jsnum_eval)
  show ?thesis
    using h1 h2 C4_parse_rounding [OF h1 h2, of "- 3"] C4_parse_rounding [OF h3 h4, of 2]
    by (simp add: r e)
qed



text \<open>
  C7: when the scaled integer of the receiver is falsy, \<open>add\<close> and \<open>subtract\<close> return the
  same: they parse the argument against the defaults of the module, whatever the settings
  of the receiver are, divide the result by the precision \<open>2\<close> of the defaults, which is not
  the scale factor, and construct an instance with the settings of the receiver. For the
  argument \<open>k / 100\<close> and a receiver with \<open>p\<close> decimals, from 1 to 22 (two when the receiver
  has no settings), the result has the scaled integer \<open>5 * k * 10 ^ (p - 1)\<close> and the value
  \<open>k / 2\<close>, which is 50 times the argument.
\<close>

theorem C7_add_to_falsy_receiver:
  assumes "\<not> truthy_opt (intValue this)"
  shows "add rx this n
           = (case parse rx n defaults True of Inl e \<Rightarrow> Inl e
              | Inr v \<Rightarrow> Currency rx (Num (js_div v (Fin 2))) (map_option as_opts (settings' this)))
         \<and> subtract rx this n = add rx this n
         \<and> (p = (case settings' this of None \<Rightarrow> 2 | Some st \<Rightarrow> precision st)
              \<and> 1 \<le> p \<and> p \<le> 22 \<and> \<bar>k\<bar> \<le> 10 ^ 11 \<and> 5 * \<bar>k\<bar> * 10 ^ (p - 1) \<le> 2 ^ 53
            \<longrightarrow> (\<exists>r. add rx this (Num (round64 (of_int k / 100))) = Inr r
                   \<and> intValue r = Some (Fin (of_int (5 * k * 10 ^ (p - 1))))
                   \<and> value' r = Some (Fin (50 * (of_int k / 100)))))"
proof -
  have d2: "precision defaults = 2" by (simp add: defaults_def)
  have m: "add rx this x
      = (case parse rx x defaults True of Inl e \<Rightarrow> Inl e
         | Inr v \<Rightarrow> Currency rx (Num (js_div v (Fin 2))) (map_option as_opts (settings' this)))"
    for x
    unfolding falsy_add [OF assms] add_fallback_def d2 of_nat_numeral ..
  have s: "subtract rx this n = add rx this n" unfolding falsy_add [OF assms] ..
  have r: "\<exists>r. add rx this (Num (round64 (of_int k / 100))) = Inr r
      \<and> intValue r = Some (Fin (of_int (5 * k * 10 ^ (p - 1))))
      \<and> value' r = Some (Fin (50 * (of_int k / 100)))"
    if p: "p = (case settings' this of None \<Rightarrow> 2 | Some st \<Rightarrow> precision st)" "1 \<le> p" "p \<le> 22"
      and k: "\<bar>k\<bar> \<le> 10 ^ 11" "5 * \<bar>k\<bar> * 10 ^ (p - 1) \<le> 2 ^ 53"
  proof -
    have "precision defaults \<le> 22" by (simp add: d2)
    from parse_amount [OF this k(1), of rx]
    have q: "parse rx (Num (round64 (of_int k / 100))) defaults True = Inr (Fin (of_int k))"
      by (simp add: d2)
    have "\<bar>k\<bar> < 2 ^ 53" using k(1) by simp
    then have h: "js_div (Fin (of_int k)) (Fin 2) = Fin (of_int k / 2)" by (rule js_div_half)
    define st where "st = (case settings' this of None \<Rightarrow> defaults | Some st \<Rightarrow> st)"
    have ps: "precision st = p" unfolding st_def p(1) by (simp add: d2 split: option.splits)
    have c: "Currency rx (Num (Fin (of_int k / 2))) (map_option as_opts (settings' this))
        = Currency rx (Num (Fin (of_int k / 2))) (Some (as_opts st))"
      unfolding st_def by (simp add: Currency_no_opts split: option.splits)
    have "1 \<le> precision st" "precision st \<le> 22" "5 * \<bar>k\<bar> * 10 ^ (precision st - 1) \<le> 2 ^ 53"
      using p(2,3) k(2) unfolding ps by simp_all
    from Currency_half [OF this, of rx] obtain r where
      "Currency rx (Num (Fin (of_int k / 2))) (Some (as_opts st)) = Inr r"
      "intValue r = Some (Fin (of_int (5 * k * 10 ^ (precision st - 1))))"
      "value' r = Some (Fin (of_int k / 2))"
      by blast
    then show ?thesis unfolding m q ps by (simp add: h c)
  qed
  from m s r show ?thesis by blast
qed

theorem C7_add_to_falsy_receiver_witness:
  "(let this = \<lparr>intValue = Some (Fin 0), value' = Some (Fin 0),
        settings' = Some (defaults\<lparr>precision := 3, increment := Some (round64 (1 / 1000)),
                            groups := Some GroupRegex\<rparr>),
        precision' = Some (Fin 1000)\<rparr>
    in Currency RegExp (Num (Fin 0)) (Some (no_opts\<lparr>p_precision := Some 3\<rparr>)) = Inr this
       \<and> \<not> truthy_opt (intValue this)
       \<and> (3::nat) = (case settings' this of None \<Rightarrow> 2 | Some st \<Rightarrow> precision st)
       \<and> (1::nat) \<le> 3 \<and> (3::nat) \<le> 22 \<and> \<bar>100 :: int\<bar> \<le> 10 ^ 11
       \<and> 5 * \<bar>100 :: int\<bar> * 10 ^ (3 - 1) \<le> 2 ^ 53
       \<and> map_sum id (\<lambda>r. (intValue r, value' r)) (add RegExp this (Num (Fin 1)))
           = Inr (Some (Fin 50000), Some (Fin 50))
       \<and> map_sum id (\<lambda>r. (intValue r, value' r)) (subtract RegExp this (Num (Fin 1)))
           = Inr (Some (Fin 50000), Some (Fin 50)))"
proof -
  define this where "this = \<lparr>intValue = Some (Fin 0), value' = Some (Fin 0),
    settings' = Some (defaults\<lparr>precision := 3, increment := Some (round64 (1 / 1000)),
                        groups := Some GroupRegex\<rparr>),
    precision' = Some (Fin 1000)\<rparr>"
  have c: "Currency RegExp (Num (Fin 0)) (Some (no_opts\<lparr>p_precision := Some 3\<rparr>)) = Inr this"
    by (simp add: this_def eval cong: let_weak_cong)
  have h: "\<not> truthy_opt (intValue this)" by (simp add: this_def eval)
  have p: "(3::nat) = (case settings' this of None \<Rightarrow> 2 | Some st \<Rightarrow> precision st)"
    by (simp add: this_def)
  have b: "(1::nat) \<le> 3" "(3::nat) \<le> 22" "\<bar>100 :: int\<bar> \<le> 10 ^ 11"
    "5 * \<bar>100 :: int\<bar> * 10 ^ (3 - 1) \<le> 2 ^ 53"
    by simp_all
  have x: "round64 (of_int 100 / 100) = Fin 1" by (simp add: jsnum_eval)
  from C7_add_to_falsy_receiver [OF h, of RegExp "Num (Fin 1)" 3 100] p b
  obtain r where
    "subtract RegExp this (Num (Fin 1)) = add RegExp this (Num (Fin 1))"
    "add RegExp this (Num (Fin 1)) = Inr r"
    "intValue r = Some (Fin (of_int (5 * 100 * 10 ^ (3 - 1))))"
    "value' r = Some (Fin (50 * (of_int 100 / 100)))"
    unfolding x by blast
  with c h p b show ?thesis unfolding this_def [symmetric] Let_def by simp
qed

text \<open>
  C8 as the specification states it, at the string \<open>1.50\<close> with a backslash as the decimal
  separator and \<open>errorOnInvalid\<close> unset: the pattern of the first regular expression is
  \<open>[^-\d\]\<close>, whose class is not closed, and the constructor throws a \<open>SyntaxError\<close>. So
  \<open>parse\<close> raises on an input that is a string.
\<close>

theorem C8_syntax_error:
  "parse RegExp (Str ''1.50'') (defaults\<lparr>decimal := [CHR 0x5C]\<rparr>) True = Inl SyntaxError
   \<and> errorOnInvalid (defaults\<lparr>decimal := [CHR 0x5C]\<rparr>) = False
   \<and> RegExp (regex_source [CHR 0x5C]) = None"
  by (simp add: eval cong: let_weak_cong)

text \<open>
  C8, amended: \<open>parse\<close> throws the error \<open>Invalid Input\<close> exactly when the input is neither a
  number, a string nor an instance and \<open>errorOnInvalid\<close> is set; with \<open>errorOnInvalid\<close> unset
  such an input yields \<open>0\<close>. The only other error is the \<open>SyntaxError\<close> of the constructor
  \<open>RegExp\<close>, thrown exactly when the input is a string and the constructor rejects one of
  the two patterns built from the decimal separator. \<open>parse\<close> throws no \<open>RangeError\<close>.
\<close>

theorem C8_parse_errors:
  "(parse rx v opts r = Inl InvalidInput \<longleftrightarrow> v = Other \<and> errorOnInvalid opts)
   \<and> (v = Other \<and> \<not> errorOnInvalid opts \<longrightarrow> parse rx v opts r = Inr (Fin 0))
   \<and> (parse rx v opts r = Inl SyntaxError \<longleftrightarrow>
        (\<exists>s. v = Str s) \<and> (rx (regex_source (decimal opts)) = None
                           \<or> rx (decimalString_source (decimal opts)) = None))
   \<and> parse rx v opts r \<noteq> Inl RangeError"
proof -
  have f: "to_fixed 4 x \<noteq> Inl e" for x e by (simp add: to_fixed_def)
  have z: "to_fixed 4 (Fin 0) = Inr ''0.0000''" "to_number ''0.0000'' = Fin 0"
    by (simp_all add: jsnum_eval string_eval cong: let_weak_cong)
  have p: "parse rx v opts r = Inl e \<longleftrightarrow> parse_scaled rx v opts = Inl e" for e
    using f by (auto simp: parse_def split: sum.splits)
  have 1: "parse_scaled rx v opts = Inl InvalidInput \<longleftrightarrow> v = Other \<and> errorOnInvalid opts"
    by (cases v) (auto simp: parse_scaled_def Let_def split: option.splits)
  have 2: "parse rx v opts r = Inr (Fin 0)" if "v = Other" "\<not> errorOnInvalid opts"
    using that by (simp add: parse_def parse_scaled_def z round'_def math_round_def)
  have 3: "parse_scaled rx v opts = Inl SyntaxError \<longleftrightarrow>
        (\<exists>s. v = Str s) \<and> (rx (regex_source (decimal opts)) = None
                           \<or> rx (decimalString_source (decimal opts)) = None)"
    by (cases v) (auto simp: parse_scaled_def Let_def split: option.splits)
  have 4: "parse_scaled rx v opts \<noteq> Inl RangeError"
    by (cases v) (auto simp: parse_scaled_def Let_def split: option.splits)
  show ?thesis using 1 2 3 4 unfolding p by blast
qed

theorem C8_parse_errors_witness:
  "Other = Other \<and> \<not> errorOnInvalid defaults
   \<and> parse RegExp Other defaults True = Inr (Fin 0)
   \<and> parse RegExp Other (defaults\<lparr>errorOnInvalid := True\<rparr>) True = Inl InvalidInput
   \<and> parse RegExp (Str ''1.50'') (defaults\<lparr>decimal := []\<rparr>) True = Inl SyntaxError
   \<and> parse RegExp (Str ''1.50'') defaults True \<noteq> Inl SyntaxError"
proof -
  have 1: "RegExp (decimalString_source (decimal (defaults\<lparr>decimal := []\<rparr>))) = None"
    "RegExp (regex_source (decimal defaults)) \<noteq> None"
    "RegExp (decimalString_source (decimal defaults)) \<noteq> None"
    by (simp_all add: eval)
  show ?thesis
    using 1 C8_parse_errors [of RegExp Other defaults True]
      C8_parse_errors [of RegExp Other "defaults\<lparr>errorOnInvalid := True\<rparr>" True]
      C8_parse_errors [of RegExp "Str ''1.50''" "defaults\<lparr>decimal := []\<rparr>" True]
      C8_parse_errors [of RegExp "Str ''1.50''" defaults True]
    by (simp add: defaults_def)
qed

text \<open>
  C9, amended: let \<open>x\<close> be constructed with options that set no rounding increment and a
  precision of at most 22, and let its scaled integer \<open>k\<close> be non-zero and at most \<open>10 ^ 11\<close>
  in magnitude.
  \<^item> The decimal separator is one character \<open>d\<close>, neither a digit, a minus sign, a dollar
    sign nor an opening parenthesis, and the two regular expressions of \<open>parse\<close> take it as
    itself: the first removes every character other than a digit, a minus sign and \<open>d\<close>,
    the second replaces \<open>d\<close> by a point.
  \<^item> The separator holds no digit, minus sign, dollar sign, opening parenthesis or \<open>d\<close>.
  \<^item> The pattern for the sign of \<open>k\<close>, with the symbol in place of its mark, is \<open>pre\<close>, the mark
    \<open>#\<close> and \<open>post\<close>, where \<open>pre\<close> holds no \<open>#\<close>, neither holds an opening parenthesis, and of
    the digits, minus signs and \<open>d\<close> they hold only one minus sign, in \<open>pre\<close>, when \<open>k\<close> is
    negative.
  Then \<open>format(useSymbol)\<close> returns a string, and constructing an instance from that string
  with the same options gives \<open>x\<close> again, for either grouping of the digits.
\<close>

theorem C9_round_trip:
  assumes c: "Currency rx v opts = Inr x" and i: "intValue x = Some (Fin (of_int k))"
    and k: "k \<noteq> 0" "\<bar>k\<bar> \<le> 10 ^ 11"
    and st: "st = assign defaults opts"
    and inc: "\<not> truthy_opt (increment st)" and p: "precision st \<le> 22"
    and dec: "decimal st = [d]" "\<not> is_digit d" "d \<noteq> CHR ''-''" "d \<noteq> CHR ''$''" "d \<noteq> CHR ''(''"
    and rx: "rx (regex_source [d]) = Some regex"
      "\<forall>s. regex s [] = filter (\<lambda>c. c = CHR ''-'' \<or> is_digit c \<or> c = d) s"
      "rx (decimalString_source [d]) = Some decimalString"
      "\<forall>s. decimalString s ''.'' = map (\<lambda>c. if c = d then CHR ''.'' else c) s"
    and sep: "CHR ''$'' \<notin> set (separator st)" "CHR ''('' \<notin> set (separator st)"
      "\<forall>c \<in> set (separator st). \<not> (c = CHR ''-'' \<or> is_digit c \<or> c = d)"
    and frame: "replace_first CHR ''!''
        (if (case useSymbol of None \<Rightarrow> formatWithSymbol st | Some u \<Rightarrow> u) then symbol st else [])
        (if k < 0 then negativePattern st else pattern st) = pre @ CHR ''#'' # post"
      "CHR ''#'' \<notin> set pre" "CHR ''('' \<notin> set pre" "CHR ''('' \<notin> set post"
      "filter (\<lambda>c. c = CHR ''-'' \<or> is_digit c \<or> c = d) pre = (if k < 0 then ''-'' else [])"
      "filter (\<lambda>c. c = CHR ''-'' \<or> is_digit c \<or> c = d) post = []"
  shows "\<exists>s. format x useSymbol = Inr (Some s) \<and> Currency rx (Str s) opts = Inr x"
proof -
  define re where "re = (if useVedic st = Some True then VedicRegex else GroupRegex)"
  define st' where "st' = st\<lparr>increment := Some (js_div (Fin 1) (Fin (10 ^ precision st))),
    groups := Some re\<rparr>"
  define x' where "x' = \<lparr>intValue = Some (Fin (of_int k)),
    value' = Some (js_div (Fin (of_int k)) (Fin (10 ^ precision st))),
    settings' = Some st', precision' = Some (Fin (10 ^ precision st))\<rparr>"
  have built: "Currency rx w opts = Inr x'" if "parse rx w st True = Inr (Fin (of_int k))" for w
    using Currency_parsed [of rx w opts, unfolded st [symmetric], OF that] inc
    unfolding x'_def st'_def re_def pow_exact [OF p] by simp
  from c obtain n where n: "parse rx v st True = Inr n" and xn: "intValue x = Some n"
    unfolding Currency_def st [symmetric] Let_def by (auto split: sum.splits)
  from xn i have "n = Fin (of_int k)" by simp
  with n have "Currency rx v opts = Inr x'" by (intro built) simp
  with c have xx: "x = x'" by simp
  have xf: "intValue x = Some (Fin (of_int k))" "settings' x = Some st'"
    "precision' x = Some (Fin (10 ^ precision st'))"
    "increment st' = Some (js_div (Fin 1) (Fin (10 ^ precision st')))"
    "value' x = Some (js_div (Fin (of_int k)) (Fin (10 ^ precision st')))"
    "groups st' = Some re"
    by (simp_all add: xx x'_def st'_def)
  have same: "precision st' = precision st" "decimal st' = decimal st"
    "separator st' = separator st" "symbol st' = symbol st" "pattern st' = pattern st"
    "negativePattern st' = negativePattern st" "formatWithSymbol st' = formatWithSymbol st"
    by (simp_all add: st'_def)
  have p': "precision st' \<le> 22" using p by (simp add: same)
  from format_amount [OF k p' xf, of d useSymbol pre post] dec sep frame
  obtain s where f: "format x useSymbol = Inr (Some s)" and np: "CHR ''('' \<notin> set s"
    and kept: "map (\<lambda>c. if c = d then CHR ''.'' else c)
        (filter (\<lambda>c. c = CHR ''-'' \<or> is_digit c \<or> c = d) s)
      = (if k < 0 then ''-'' else []) @ fixed_digits (precision st) (nat \<bar>k\<bar>)"
    unfolding same by blast
  note kb = of_int_bounds [OF k]
  note P = pow_bounds [OF p]
  from scaled_signed [OF k P] obtain a c where
    a: "round64 (of_int k / 10 ^ precision st) = Fin a" "a \<noteq> 0"
    and c: "round64 (a * 10 ^ precision st) = Fin c" "\<bar>c - of_int k\<bar> < 1 / 20000"
    by blast
  have rv: "decimalString (regex (paren_negative s) []) ''.''
      = (if k < 0 then ''-'' else []) @ fixed_digits (precision st) (nat \<bar>k\<bar>)"
    unfolding paren_negative_id [OF np] using rx(2,4) kept by simp
  have "(if k < 0 then - 1 else 1) * of_nat (nat \<bar>k\<bar>) / 10 ^ precision st
      = (of_int k / 10 ^ precision st :: rat)"
    by simp
  then have tn: "to_number ((if k < 0 then ''-'' else []) @ fixed_digits (precision st) (nat \<bar>k\<bar>))
      = Fin a"
    unfolding to_number_fixed using kb(2) a(1) by simp
  have m: "js_mul (Fin a) (Fin (10 ^ precision st)) = Fin c" using a(2) c(1) by (simp add: js_mul_Fin)
  have c0: "c \<noteq> 0"
  proof
    assume "c = 0"
    with c(2) have "\<bar>of_int k :: rat\<bar> < 1" by simp
    then have "\<bar>k\<bar> < 1" by (metis of_int_abs of_int_less_1_iff)
    with k(1) show False by simp
  qed
  have tc: "truthy (Fin c)" using c0 by (simp add: truthy_def is_zero_def is_nan_def)
  have k53: "\<bar>k\<bar> \<le> 2 ^ 53" using k(2) by simp
  have ps: "parse_scaled rx (Str s) st = Inr (Fin c)"
    unfolding parse_scaled_def Let_def input.case dec(1) rx(1,3) option.case rv tn
      pow_exact [OF p] m
    using tc by simp
  have "parse rx (Str s) st True = Inr (Fin (of_int k))"
    unfolding parse_def ps using settle [OF k(1) k53 c(2)] k(1)
    by (simp add: round'_def math_round_int)
  then have "Currency rx (Str s) opts = Inr x" unfolding xx by (rule built)
  with f show ?thesis by blast
qed

theorem C9_round_trip_witness:
  "(let opts = Some (no_opts\<lparr>p_symbol := Some ''EUR'', p_separator := Some ''.'',
          p_decimal := Some '','', p_formatWithSymbol := Some True, p_precision := Some 3,
          p_pattern := Some ''# !'', p_negativePattern := Some ''-# !'',
          p_useVedic := Some True\<rparr>);
        x = \<lparr>intValue = Some (Fin (- 1234567891)),
          value' = Some (Fin (- (5302428716536693 / 4294967296))),
          settings' = Some (defaults\<lparr>symbol := ''EUR'', separator := ''.'', decimal := '','',
            formatWithSymbol := True, precision := 3, pattern := ''# !'',
            negativePattern := ''-# !'',
            increment := Some (Fin (1152921504606847 / 1152921504606846976)),
            groups := Some VedicRegex, useVedic := Some True\<rparr>),
          precision' = Some (Fin 1000)\<rparr>
    in Currency RegExp (Num (round64 (- 1234567891 / 1000))) opts = Inr x
       \<and> intValue x = Some (Fin (of_int (- 1234567891)))
       \<and> \<bar>- 1234567891 :: int\<bar> \<le> 10 ^ 11
       \<and> \<not> truthy_opt (increment (assign defaults opts))
       \<and> precision (assign defaults opts) \<le> 22
       \<and> decimal (assign defaults opts) = '',''
       \<and> replace_first CHR ''!'' ''EUR'' ''-# !'' = ''-'' @ CHR ''#'' # '' EUR''
       \<and> format x None = Inr (Some ''-12.34.567,891 EUR'')
       \<and> Currency RegExp (Str ''-12.34.567,891 EUR'') opts = Inr x)"
proof -
  define opts where "opts = Some (no_opts\<lparr>p_symbol := Some ''EUR'', p_separator := Some ''.'',
    p_decimal := Some '','', p_formatWithSymbol := Some True, p_precision := Some 3,
    p_pattern := Some ''# !'', p_negativePattern := Some ''-# !'',
    p_useVedic := Some True\<rparr>)"
  define x where "x = \<lparr>intValue = Some (Fin (- 1234567891)),
    value' = Some (Fin (- (5302428716536693 / 4294967296))),
    settings' = Some (defaults\<lparr>symbol := ''EUR'', separator := ''.'', decimal := '','',
      formatWithSymbol := True, precision := 3, pattern := ''# !'',
      negativePattern := ''-# !'',
      increment := Some (Fin (1152921504606847 / 1152921504606846976)),
      groups := Some VedicRegex, useVedic := Some True\<rparr>),
    precision' = Some (Fin 1000)\<rparr>"
  define st where "st = assign defaults opts"
  have st: "symbol st = ''EUR''" "separator st = ''.''" "decimal st = '',''"
    "formatWithSymbol st = True" "precision st = 3" "pattern st = ''# !''"
    "negativePattern st = ''-# !''" "increment st = None"
    by (simp_all add: st_def opts_def assign_def no_opts_def defaults_def)
  have c: "Currency RegExp (Num (round64 (- 1234567891 / 1000))) opts = Inr x"
    by (simp add: opts_def x_def eval cong: let_weak_cong)
  have i: "intValue x = Some (Fin (of_int (- 1234567891)))" by (simp add: x_def)
  have k: "(- 1234567891 :: int) \<noteq> 0" "\<bar>- 1234567891 :: int\<bar> \<le> 10 ^ 11" by simp_all
  have inc: "\<not> truthy_opt (increment st)" by (simp add: st truthy_opt_def)
  have p: "precision st \<le> 22" by (simp add: st)
  have dec: "decimal st = [CHR '','']" "\<not> is_digit CHR '',''" "CHR '','' \<noteq> CHR ''-''"
    "CHR '','' \<noteq> CHR ''$''" "CHR '','' \<noteq> CHR ''(''"
    by (simp_all add: st)
  have rx: "RegExp (regex_source [CHR '','']) = Some
        (class_sub (\<lambda>c. \<not> (c = CHR ''-'' \<or> is_digit c \<or> c = CHR '','')) [])"
    "\<forall>s. class_sub (\<lambda>c. \<not> (c = CHR ''-'' \<or> is_digit c \<or> c = CHR '','')) [] s []
       = filter (\<lambda>c. c = CHR ''-'' \<or> is_digit c \<or> c = CHR '','') s"
    "RegExp (decimalString_source [CHR '','']) = Some (class_sub (\<lambda>c. c = CHR '','') [])"
    "\<forall>s. class_sub (\<lambda>c. c = CHR '','') [] s ''.''
       = map (\<lambda>c. if c = CHR '','' then CHR ''.'' else c) s"
    by (simp_all add: RegExp_def regex_source_def decimalString_source_def atom_escape_def
        escaped_def class_sub_remove class_sub_point)
  have sep: "CHR ''$'' \<notin> set (separator st)" "CHR ''('' \<notin> set (separator st)"
    "\<forall>c \<in> set (separator st). \<not> (c = CHR ''-'' \<or> is_digit c \<or> c = CHR '','')"
    by (simp_all add: st)
  have r: "replace_first CHR ''!'' ''EUR'' ''-# !'' = ''-'' @ CHR ''#'' # '' EUR''"
    by (simp add: replace_first_def)
  have frame: "replace_first CHR ''!''
        (if (case None of None \<Rightarrow> formatWithSymbol st | Some u \<Rightarrow> u) then symbol st else [])
        (if (- 1234567891 :: int) < 0 then negativePattern st else pattern st)
      = ''-'' @ CHR ''#'' # '' EUR''"
    "CHR ''#'' \<notin> set ''-''" "CHR ''('' \<notin> set ''-''" "CHR ''('' \<notin> set '' EUR''"
    "filter (\<lambda>c. c = CHR ''-'' \<or> is_digit c \<or> c = CHR '','') ''-''
       = (if (- 1234567891 :: int) < 0 then ''-'' else [])"
    "filter (\<lambda>c. c = CHR ''-'' \<or> is_digit c \<or> c = CHR '','') '' EUR'' = []"
    by (simp_all add: st r is_digit_def)
  have f: "format x None = Inr (Some ''-12.34.567,891 EUR'')"
    by (simp add: x_def eval cong: let_weak_cong)
  from C9_round_trip [OF c i k st_def inc p dec rx sep frame] obtain s where
    "format x None = Inr (Some s)" "Currency RegExp (Str s) opts = Inr x"
    by blast
  with f have "Currency RegExp (Str ''-12.34.567,891 EUR'') opts = Inr x" by simp
  with c i k inc p dec r f show ?thesis
    unfolding st_def opts_def [symmetric] x_def [symmetric] Let_def by simp
qed
end
